theory Spec2Isabelle
  imports Main "HOL-Library.Char_ord" "HOL-Library.List_Lexorder" "HOL-Library.Sublist" "HOL-Library.AList"
begin

section \<open>The job queue manager of clarity-automation\<close>

text \<open>
  The scheduler lives in the queue manager module (\<^verbatim>\<open>queue-manager.js\<close>, the second
  document of \<^verbatim>\<open>src/src/index.js\<close>). Its state is module-level and mutable: the pending
  list \<^verbatim>\<open>jobQueue\<close>, the reference \<^verbatim>\<open>currentJob\<close>, the guard \<^verbatim>\<open>isProcessing\<close>, the map
  \<^verbatim>\<open>allJobs\<close>, the counter \<^verbatim>\<open>jobIdCounter\<close> and \<^verbatim>\<open>stats\<close>. The model passes that state
  explicitly. Job objects are shared by reference between the map, the queue entries and
  the suspended drain loop, so they live in an explicit heap and are named by their
  address everywhere else.
\<close>

subsection \<open>Time\<close>

text \<open>
  Every \<^verbatim>\<open>new Date()\<close> of the source is a reading of the wall clock, an input of the
  environment. A reading carries the time value of the \<^verbatim>\<open>Date\<close> (milliseconds since the
  epoch) and the text that \<^verbatim>\<open>toISOString()\<close> gives for it. The source stores the text in
  the job and later reads the time value back with \<^verbatim>\<open>new Date(text)\<close>; the model keeps the
  two together instead of printing and parsing dates.
\<close>

record instant =
  time_value :: int
  toISOString :: string

subsection \<open>Job identifiers\<close>

text \<open>\<^verbatim>\<open>String(n)\<close> for a non-negative integer: its decimal digits.\<close>

definition digit_char :: "nat \<Rightarrow> char" where
  "digit_char d = ''0123456789'' ! d"

fun String_nat :: "nat \<Rightarrow> string" where
  "String_nat n = (if n < 10 then [digit_char n] else String_nat (n div 10) @ [digit_char (n mod 10)])"

declare String_nat.simps [simp del]

text \<open>\<^verbatim>\<open>s.padStart(w, c)\<close> with a one-character filler.\<close>

definition padStart :: "nat \<Rightarrow> char \<Rightarrow> string \<Rightarrow> string" where
  "padStart w c s = replicate (w - length s) c @ s"

text \<open>\<^verbatim>\<open>now.toISOString().replace(/[-:T]/g, '').slice(0, 14)\<close>\<close>

definition timestamp :: "instant \<Rightarrow> string" where
  "timestamp now = take 14 (filter (\<lambda>c. c \<notin> {CHR ''-'', CHR '':'', CHR ''T''}) (toISOString now))"

text \<open>
  \<^verbatim>\<open>generateJobId\<close> reads the clock and pre-increments \<^verbatim>\<open>jobIdCounter\<close>. It takes the
  counter and returns the identifier with the new counter.
\<close>

definition generateJobId :: "instant \<Rightarrow> nat \<Rightarrow> string \<times> nat" where
  "generateJobId now jobIdCounter =
     (''job_'' @ timestamp now @ ''_'' @ padStart 3 (CHR ''0'') (String_nat (Suc jobIdCounter)),
      Suc jobIdCounter)"

subsection \<open>Jobs, task results and the other values the scheduler handles\<close>

datatype status = Queued | Processing | Completed | Failed

text \<open>
  A task result is an object of the processing callback. The scheduler reads only its
  \<^verbatim>\<open>success\<close> field; the limiter builds results with \<^verbatim>\<open>success\<close>, \<^verbatim>\<open>sessionId\<close> and
  \<^verbatim>\<open>error\<close>. The remaining fields of the caller are carried in \<open>extra\<close>.
\<close>

record task_result =
  success :: bool
  sessionId :: string
  task_error :: "string option"
  extra :: "(string \<times> string) list"

text \<open>The \<^verbatim>\<open>options\<close> argument of \<^verbatim>\<open>createJob\<close> and \<^verbatim>\<open>queueJob\<close>; an absent field is \<open>None\<close>.\<close>

record options =
  opt_outputDir :: "string option"
  opt_recordingsCount :: "nat option"
  opt_webhookUrl :: "string option"
  opt_uploadToGdrive :: "bool option"
  opt_metadata :: "(string \<times> string) list option"

text \<open>The job object of \<^verbatim>\<open>createJob\<close>. Its \<^verbatim>\<open>id\<close> field is \<open>job_id\<close> here.\<close>

record job =
  job_id :: string
  status :: status
  folder :: string
  createdAt :: instant
  startedAt :: "instant option"
  completedAt :: "instant option"
  recordingsTotal :: nat
  recordingsCompleted :: nat
  recordingsFailed :: nat
  results :: "task_result list"
  error :: "string option"
  webhookUrl :: "string option"
  uploadToGdrive :: bool
  metadata :: "(string \<times> string) list"

text \<open>The body of the webhook request, built in \<^verbatim>\<open>sendWebhookNotification\<close>.\<close>

record payload =
  p_event :: string
  p_jobId :: string
  p_status :: status
  p_folder :: string
  p_recordingsTotal :: nat
  p_recordingsCompleted :: nat
  p_recordingsFailed :: nat
  p_createdAt :: instant
  p_completedAt :: "instant option"
  p_results :: "task_result list"
  p_metadata :: "(string \<times> string) list"

text \<open>The value \<^verbatim>\<open>processNextJob\<close> passes to \<^verbatim>\<open>resolve\<close>.\<close>

record job_outcome =
  o_success :: bool
  o_jobId :: string
  o_folder :: string
  o_total :: nat
  o_completed :: nat
  o_failed :: nat
  o_results :: "task_result list"

text \<open>
  How an awaited promise settles: with a value, or with a thrown value, of which the
  source reads the property \<^verbatim>\<open>message\<close> only. \<open>Rejects m\<close> is a rejection with a value
  other than \<^verbatim>\<open>null\<close> and \<^verbatim>\<open>undefined\<close>, whose \<^verbatim>\<open>message\<close> reads \<open>m\<close>: the text of an
  \<^verbatim>\<open>Error\<close>, and \<open>None\<close> (\<^verbatim>\<open>undefined\<close>) for a value that has no such property, a thrown
  string for one. \<open>RejectsNullish\<close> is a rejection with \<^verbatim>\<open>null\<close> or \<^verbatim>\<open>undefined\<close>: reading
  \<^verbatim>\<open>error.message\<close> of it throws a \<^verbatim>\<open>TypeError\<close>.
\<close>

datatype 'a settle = Resolves 'a | Rejects "string option" | RejectsNullish

text \<open>A promise of \<^verbatim>\<open>queueJob\<close>; a rejected one holds the \<^verbatim>\<open>message\<close> of the value it was
  rejected with.\<close>

datatype promise_state = Pending | Fulfilled job_outcome | Rejected "string option"

text \<open>A value in a template literal: \<^verbatim>\<open>undefined\<close> is printed as that word.\<close>

definition template_text :: "string option \<Rightarrow> string" where
  "template_text v = (case v of None \<Rightarrow> ''undefined'' | Some x \<Rightarrow> x)"

text \<open>
  What \<^verbatim>\<open>fetch\<close> gives: a response with \<^verbatim>\<open>ok\<close>, \<^verbatim>\<open>status\<close> and \<^verbatim>\<open>statusText\<close>, or a
  thrown network error.
\<close>

datatype fetch_result = Response bool nat string | FetchThrew string

text \<open>The lines the module writes to the console, one constructor for each call site.\<close>

datatype log =
    LogCreated string string
  | LogQueued string nat
  | LogStarting string nat
  | LogQueueLength nat
  | LogJobCompleted string nat nat
  | LogJobFailed string string
  | LogWebhookSending string
  | LogWebhookFailed nat string
  | LogWebhookSent
  | LogWebhookError string

record stats =
  jobsCompleted :: nat
  jobsFailed :: nat
  recordingsProcessed :: nat

text \<open>
  An entry of \<^verbatim>\<open>jobQueue\<close>: the job (its address) and the \<^verbatim>\<open>resolve\<close>/\<^verbatim>\<open>reject\<close> pair of
  the promise that \<^verbatim>\<open>queueJob\<close> returned (the index of that promise). The entry's
  \<^verbatim>\<open>processFunction\<close> is opaque to the scheduler: calling it is modelled by the suspended
  frame \<open>AwaitProcess\<close>, and its settling by an event.
\<close>

record entry =
  job :: nat
  promise :: nat

text \<open>
  \<^verbatim>\<open>processNextJob\<close> is an async function: an invocation that passes the guard is
  suspended at \<^verbatim>\<open>await processFunction(job)\<close> and later at
  \<^verbatim>\<open>await sendWebhookNotification(job)\<close>. A frame records where an invocation is
  suspended, with its locals: the job, the promise, and at the second await the outcome
  of the callback and whether \<^verbatim>\<open>sendWebhookNotification\<close> has a request in flight.
\<close>

datatype frame =
    AwaitProcess nat nat
  | AwaitWebhook nat nat "task_result list settle" bool

record state =
  heap :: "job list"
  jobQueue :: "entry list"
  currentJob :: "nat option"
  isProcessing :: bool
  allJobs :: "(string \<times> nat) list"
  jobIdCounter :: nat
  stats :: stats
  frames :: "frame list"
  promises :: "promise_state list"
  console :: "log list"
  fetches :: "(string \<times> payload) list"

definition init :: state where
  "init = \<lparr>heap = [], jobQueue = [], currentJob = None, isProcessing = False, allJobs = [],
     jobIdCounter = 0, stats = \<lparr>jobsCompleted = 0, jobsFailed = 0, recordingsProcessed = 0\<rparr>,
     frames = [], promises = [], console = [], fetches = []\<rparr>"

subsection \<open>The job store\<close>

text \<open>Truthiness of a value that is a string or absent: \<^verbatim>\<open>x || d\<close> takes \<open>d\<close> for both
  the absent and the empty string.\<close>

definition truthy :: "string option \<Rightarrow> bool" where
  "truthy v = (case v of None \<Rightarrow> False | Some x \<Rightarrow> x \<noteq> [])"

text \<open>
  \<^verbatim>\<open>createJobFolder\<close> joins the base directory and the identifier and creates the
  directory. The file system is not modelled: \<^verbatim>\<open>mkdirSync\<close> is taken to succeed, and
  \<^verbatim>\<open>path.join\<close> is taken without its normalisation of the path.
\<close>

definition createJobFolder :: "string \<Rightarrow> string \<Rightarrow> string" where
  "createJobFolder jobId baseDir = baseDir @ ''/'' @ jobId"

text \<open>
  \<^verbatim>\<open>createJob\<close>: two readings of the clock (one in \<^verbatim>\<open>generateJobId\<close>, one for
  \<^verbatim>\<open>createdAt\<close>), a fresh object, and \<^verbatim>\<open>allJobs.set(jobId, job)\<close>, which replaces the
  value of a key that is present and appends the key otherwise.
\<close>

definition createJob :: "options \<Rightarrow> instant \<Rightarrow> instant \<Rightarrow> state \<Rightarrow> nat \<times> state" where
  "createJob opts now1 now2 s =
     (let (jobId, c) = generateJobId now1 (jobIdCounter s);
          baseDir = (if truthy (opt_outputDir opts) then the (opt_outputDir opts) else ''./recordings'');
          jobFolder = createJobFolder jobId baseDir;
          j = \<lparr>job_id = jobId, status = Queued, folder = jobFolder, createdAt = now2,
               startedAt = None, completedAt = None,
               recordingsTotal = (case opt_recordingsCount opts of None \<Rightarrow> 0 | Some n \<Rightarrow> n),
               recordingsCompleted = 0, recordingsFailed = 0, results = [], error = None,
               webhookUrl = (if truthy (opt_webhookUrl opts) then opt_webhookUrl opts else None),
               uploadToGdrive = (case opt_uploadToGdrive opts of None \<Rightarrow> False | Some b \<Rightarrow> b),
               metadata = (case opt_metadata opts of None \<Rightarrow> [] | Some m \<Rightarrow> m)\<rparr>;
          r = length (heap s)
      in (r, s\<lparr>jobIdCounter := c, heap := heap s @ [j],
                allJobs := AList.update jobId r (allJobs s),
                console := console s @ [LogCreated jobId jobFolder]\<rparr>))"

text \<open>\<^verbatim>\<open>getJobStatus\<close>: the job stored under the identifier, or null.\<close>

definition getJobStatus :: "string \<Rightarrow> state \<Rightarrow> job option" where
  "getJobStatus jobId s = map_option (\<lambda>r. heap s ! r) (map_of (allJobs s) jobId)"

subsection \<open>The webhook notifier\<close>

definition webhook_payload :: "job \<Rightarrow> payload" where
  "webhook_payload j = \<lparr>p_event = ''job_completed'', p_jobId = job_id j, p_status = status j,
     p_folder = folder j, p_recordingsTotal = recordingsTotal j,
     p_recordingsCompleted = recordingsCompleted j, p_recordingsFailed = recordingsFailed j,
     p_createdAt = createdAt j, p_completedAt = completedAt j, p_results = results j,
     p_metadata = metadata j\<rparr>"

text \<open>
  \<^verbatim>\<open>sendWebhookNotification\<close> up to its await: it returns at once when the job has no
  \<^verbatim>\<open>webhookUrl\<close>; otherwise it builds the payload, logs, and starts one POST request.
  The result says whether a request is in flight.
\<close>

definition sendWebhookNotification_request :: "job \<Rightarrow> state \<Rightarrow> bool \<times> state" where
  "sendWebhookNotification_request j s =
     (if \<not> truthy (webhookUrl j) then (False, s)
      else (True, s\<lparr>console := console s @ [LogWebhookSending (the (webhookUrl j))],
                     fetches := fetches s @ [(the (webhookUrl j), webhook_payload j)]\<rparr>))"

text \<open>
  \<^verbatim>\<open>sendWebhookNotification\<close> after its await: a response that is not \<^verbatim>\<open>ok\<close> and a
  thrown error are written to the console, and the function returns normally.
\<close>

definition sendWebhookNotification_response :: "fetch_result \<Rightarrow> state \<Rightarrow> state" where
  "sendWebhookNotification_response resp s =
     (case resp of
        Response ok code txt \<Rightarrow>
          (if \<not> ok then s\<lparr>console := console s @ [LogWebhookFailed code txt]\<rparr>
           else s\<lparr>console := console s @ [LogWebhookSent]\<rparr>)
      | FetchThrew msg \<Rightarrow> s\<lparr>console := console s @ [LogWebhookError msg]\<rparr>)"

subsection \<open>The retention trimmer\<close>

text \<open>\<^verbatim>\<open>new Date(j.completedAt)\<close> as a number; \<^verbatim>\<open>new Date(null)\<close> is the epoch.\<close>

definition completedAt_time :: "job \<Rightarrow> int" where
  "completedAt_time j = (case completedAt j of None \<Rightarrow> 0 | Some t \<Rightarrow> time_value t)"

definition terminal :: "status \<Rightarrow> bool" where
  "terminal st = (st = Completed \<or> st = Failed)"

text \<open>
  \<^verbatim>\<open>cleanupOldJobs\<close>: the entries of \<^verbatim>\<open>allJobs\<close> whose job is completed or failed, sorted
  by the comparator \<^verbatim>\<open>new Date(b.completedAt) - new Date(a.completedAt)\<close> (a stable sort,
  latest first); when there are more than 50, the keys after the first 50 are deleted.
\<close>

definition completed_entries :: "state \<Rightarrow> (string \<times> nat) list" where
  "completed_entries s =
     sort_key (\<lambda>e. - completedAt_time (heap s ! snd e))
       (filter (\<lambda>e. status (heap s ! snd e) = Completed \<or> status (heap s ! snd e) = Failed) (allJobs s))"

definition cleanupOldJobs :: "state \<Rightarrow> state" where
  "cleanupOldJobs s =
     (let completed = completed_entries s
      in if length completed > 50
         then s\<lparr>allJobs := fold (\<lambda>e. AList.delete (fst e)) (drop 50 completed) (allJobs s)\<rparr>
         else s)"

subsection \<open>The drain loop\<close>

text \<open>
  \<^verbatim>\<open>processNextJob\<close> from its entry to \<^verbatim>\<open>await processFunction(job)\<close>. The guard returns
  at once; otherwise the head of the queue is taken, marked, and the invocation is
  suspended.
\<close>

definition processNextJob :: "instant \<Rightarrow> state \<Rightarrow> state" where
  "processNextJob now s =
     (if isProcessing s \<or> jobQueue s = [] then s
      else
        let e = hd (jobQueue s);
            r = job e;
            s1 = s\<lparr>isProcessing := True, jobQueue := tl (jobQueue s), currentJob := Some r\<rparr>;
            s2 = s1\<lparr>console := console s1 @
                   [LogStarting (job_id (heap s1 ! r)) (recordingsTotal (heap s1 ! r)),
                    LogQueueLength (length (jobQueue s1))]\<rparr>;
            s3 = s2\<lparr>heap := (heap s2)[r := (heap s2 ! r)\<lparr>status := Processing, startedAt := Some now\<rparr>]\<rparr>
        in s3\<lparr>frames := frames s3 @ [AwaitProcess r (promise e)]\<rparr>)"

text \<open>
  The invocation resumed when the callback has settled: the rest of the \<^verbatim>\<open>try\<close> block
  for a result list and the \<^verbatim>\<open>catch\<close> block for a rejection, both up to
  \<^verbatim>\<open>await sendWebhookNotification(job)\<close>. For a rejection with \<^verbatim>\<open>null\<close> or \<^verbatim>\<open>undefined\<close>
  the \<^verbatim>\<open>catch\<close> block assigns \<^verbatim>\<open>status\<close> and \<^verbatim>\<open>completedAt\<close>, and
  \<^verbatim>\<open>job.error = error.message\<close> throws: the rest of the block is skipped and the
  \<^verbatim>\<open>finally\<close> block runs at once, with a further reading \<open>later\<close> of the clock when
  \<^verbatim>\<open>processNextJob\<close> starts the next job. The promise of the invocation itself is then
  rejected with the \<^verbatim>\<open>TypeError\<close>; no caller holds that promise, and what the runtime
  does with a rejection that nobody handles is outside the model.
\<close>

definition after_process :: "nat \<Rightarrow> nat \<Rightarrow> task_result list settle \<Rightarrow> instant \<Rightarrow> instant \<Rightarrow> state \<Rightarrow> state" where
  "after_process r p outcome now later s =
     (case outcome of
        Resolves res \<Rightarrow>
          (let j = (heap s ! r)\<lparr>status := Completed, completedAt := Some now, results := res,
                     recordingsCompleted := length (filter success res),
                     recordingsFailed := length (filter (\<lambda>x. \<not> success x) res)\<rparr>;
               s1 = s\<lparr>heap := (heap s)[r := j],
                      stats := (stats s)\<lparr>jobsCompleted := jobsCompleted (stats s) + 1,
                        recordingsProcessed := recordingsProcessed (stats s) + length res\<rparr>\<rparr>;
               s2 = s1\<lparr>console := console s1 @
                      [LogJobCompleted (job_id j) (recordingsCompleted j) (recordingsTotal j)]\<rparr>;
               (inflight, s3) = sendWebhookNotification_request j s2
           in s3\<lparr>frames := remove1 (AwaitProcess r p) (frames s3) @ [AwaitWebhook r p outcome inflight]\<rparr>)
      | Rejects m \<Rightarrow>
          (let j = (heap s ! r)\<lparr>status := Failed, completedAt := Some now, error := m\<rparr>;
               s1 = s\<lparr>heap := (heap s)[r := j],
                      stats := (stats s)\<lparr>jobsFailed := jobsFailed (stats s) + 1\<rparr>\<rparr>;
               s2 = s1\<lparr>console := console s1 @ [LogJobFailed (job_id j) (template_text m)]\<rparr>;
               (inflight, s3) = sendWebhookNotification_request j s2
           in s3\<lparr>frames := remove1 (AwaitProcess r p) (frames s3) @ [AwaitWebhook r p outcome inflight]\<rparr>)
      | RejectsNullish \<Rightarrow>
          (let j = (heap s ! r)\<lparr>status := Failed, completedAt := Some now\<rparr>;
               s1 = s\<lparr>heap := (heap s)[r := j]\<rparr>;
               s2 = s1\<lparr>currentJob := None, isProcessing := False,
                       frames := remove1 (AwaitProcess r p) (frames s1)\<rparr>;
               s3 = cleanupOldJobs s2
           in processNextJob later s3))"

text \<open>\<^verbatim>\<open>resolve\<close> and \<^verbatim>\<open>reject\<close> of a promise settle it when it is pending and do nothing
  otherwise.\<close>

definition settle_promise :: "nat \<Rightarrow> promise_state \<Rightarrow> state \<Rightarrow> state" where
  "settle_promise p v s =
     (if p < length (promises s) \<and> promises s ! p = Pending
      then s\<lparr>promises := (promises s)[p := v]\<rparr> else s)"

text \<open>
  The invocation resumed when \<^verbatim>\<open>sendWebhookNotification\<close> has settled: the caller's
  promise is resolved or rejected, then the \<^verbatim>\<open>finally\<close> block clears \<^verbatim>\<open>currentJob\<close> and
  the guard, trims the store and calls \<^verbatim>\<open>processNextJob\<close> again. No invocation waits
  here after a rejection with \<^verbatim>\<open>null\<close> or \<^verbatim>\<open>undefined\<close>, which has left the \<^verbatim>\<open>catch\<close>
  block before.
\<close>

definition after_webhook :: "nat \<Rightarrow> nat \<Rightarrow> task_result list settle \<Rightarrow> bool \<Rightarrow> fetch_result \<Rightarrow> instant \<Rightarrow> state \<Rightarrow> state" where
  "after_webhook r p outcome inflight resp now s =
     (let s1 = (if inflight then sendWebhookNotification_response resp s else s);
          j = heap s1 ! r;
          s2 = (case outcome of
                  Resolves res \<Rightarrow>
                    settle_promise p (Fulfilled \<lparr>o_success = True, o_jobId = job_id j,
                      o_folder = folder j, o_total = recordingsTotal j,
                      o_completed = recordingsCompleted j, o_failed = recordingsFailed j,
                      o_results = res\<rparr>) s1
                | Rejects m \<Rightarrow> settle_promise p (Rejected m) s1
                | RejectsNullish \<Rightarrow> s1);
          s3 = s2\<lparr>currentJob := None, isProcessing := False,
                  frames := remove1 (AwaitWebhook r p outcome inflight) (frames s2)\<rparr>;
          s4 = cleanupOldJobs s3
      in processNextJob now s4)"

text \<open>
  \<^verbatim>\<open>queueJob\<close>: a new promise, the job, the entry at the tail of the queue, and a call
  of \<^verbatim>\<open>processNextJob\<close>. It returns the promise.
\<close>

definition queueJob :: "options \<Rightarrow> instant \<Rightarrow> instant \<Rightarrow> instant \<Rightarrow> state \<Rightarrow> nat \<times> state" where
  "queueJob opts now1 now2 now3 s =
     (let p = length (promises s);
          s0 = s\<lparr>promises := promises s @ [Pending]\<rparr>;
          (r, s1) = createJob opts now1 now2 s0;
          s2 = s1\<lparr>jobQueue := jobQueue s1 @ [\<lparr>job = r, promise = p\<rparr>]\<rparr>;
          s3 = s2\<lparr>console := console s2 @ [LogQueued (job_id (heap s2 ! r)) (length (jobQueue s2))]\<rparr>
      in (p, processNextJob now3 s3))"

subsection \<open>The scheduler as a transition system\<close>

text \<open>
  The runtime is single-threaded: between two awaits the code runs without
  interleaving. One event is one such run: a call of \<^verbatim>\<open>queueJob\<close> (with the three clock
  readings it makes when it starts the job itself), the settling of the callback of a
  suspended invocation (with the reading for \<^verbatim>\<open>completedAt\<close>, and a reading for the next
  job's \<^verbatim>\<open>startedAt\<close>, made only when the \<^verbatim>\<open>finally\<close> block runs in the same turn), and
  the settling of \<^verbatim>\<open>sendWebhookNotification\<close> (with the result of \<^verbatim>\<open>fetch\<close>, read only
  when a request is in flight, and the reading for the next job's \<^verbatim>\<open>startedAt\<close>). An event
  that names no suspended frame changes nothing. Only the operations of the scheduler are events; the
  exported \<^verbatim>\<open>updateJob\<close>, which no code path of the scheduler calls, is not.
\<close>

datatype event =
    QueueJob options instant instant instant
  | ProcessSettled nat nat "task_result list settle" instant instant
  | WebhookSettled nat nat "task_result list settle" bool fetch_result instant

fun step :: "state \<Rightarrow> event \<Rightarrow> state" where
  "step s (QueueJob opts now1 now2 now3) = snd (queueJob opts now1 now2 now3 s)"
| "step s (ProcessSettled r p outcome now later) =
     (if AwaitProcess r p \<in> set (frames s) then after_process r p outcome now later s else s)"
| "step s (WebhookSettled r p outcome inflight resp now) =
     (if AwaitWebhook r p outcome inflight \<in> set (frames s)
      then after_webhook r p outcome inflight resp now s else s)"

definition run :: "event list \<Rightarrow> state" where
  "run es = foldl step init es"

subsection \<open>The concurrency limiter\<close>

text \<open>
  \<^verbatim>\<open>processRecordingsInJob\<close> wraps every recording in a unit of work, hands the units to
  \<^verbatim>\<open>limit\<close> (of the package p-limit) in the order of the input, and awaits
  \<^verbatim>\<open>Promise.all\<close> of the promises that \<^verbatim>\<open>limit\<close> returned. The package is not part of the
  repository; it is modelled by its documented behaviour: a unit starts at once while
  fewer than \<open>k\<close> units are in flight and waits in a first-in first-out queue otherwise,
  and when a unit settles, in either way, the head of the queue starts.
\<close>

record recording =
  rec_sessionId :: string
  rec_playbackUrl :: string

text \<open>
  The state of the limiter and of the promises it has returned: the units that wait, the
  units in flight, for every unit the value of its promise once fulfilled, and the
  errors of the promises that were rejected, in the order in which that happened.
\<close>

record limiter =
  waiting :: "nat list"
  active :: "nat list"
  settled :: "task_result option list"
  rejected :: "string list"

text \<open>\<^verbatim>\<open>limit(fn)\<close> for the unit of index \<open>i\<close>; its promise is pending.\<close>

definition limit_call :: "nat \<Rightarrow> nat \<Rightarrow> limiter \<Rightarrow> limiter" where
  "limit_call k i l =
     (if length (active l) < k
      then l\<lparr>active := active l @ [i], settled := settled l @ [None]\<rparr>
      else l\<lparr>waiting := waiting l @ [i], settled := settled l @ [None]\<rparr>)"

text \<open>
  The message of the \<^verbatim>\<open>TypeError\<close> that reading \<^verbatim>\<open>error.message\<close> of \<^verbatim>\<open>null\<close> or
  \<^verbatim>\<open>undefined\<close> throws. Its wording belongs to the engine; the model keeps one text.
\<close>

definition TypeError_message :: string where
  "TypeError_message = ''Cannot read properties of null (reading message)''"

text \<open>
  The unit of work, from the way in which \<^verbatim>\<open>processFunc\<close> settles: it returns the result
  of \<^verbatim>\<open>processFunc\<close> as it is, and for a rejection or a throw the object built in the
  \<^verbatim>\<open>catch\<close> block. For a rejection with \<^verbatim>\<open>null\<close> or \<^verbatim>\<open>undefined\<close> the \<^verbatim>\<open>catch\<close> block
  throws when it reads \<^verbatim>\<open>error.message\<close> for its console line, and the unit rejects
  (\<open>Inl\<close>, with the message of the error).
\<close>

definition unit_result :: "recording \<Rightarrow> task_result settle \<Rightarrow> string + task_result" where
  "unit_result recording outcome =
     (case outcome of
        Resolves result \<Rightarrow> Inr result
      | Rejects m \<Rightarrow> Inr \<lparr>success = False, sessionId = rec_sessionId recording,
                         task_error = m, extra = []\<rparr>
      | RejectsNullish \<Rightarrow> Inl TypeError_message)"

text \<open>
  The unit of index \<open>i\<close> settles. Only a unit in flight can settle. Its promise is
  fulfilled with the unit's result or rejected with its error, its slot is freed, and
  the head of the queue starts. \<open>processFunc\<close> gives the way in which the call
  \<^verbatim>\<open>processFunc(recording, index, recordings.length)\<close> settles.
\<close>

definition unit_settles ::
  "recording list \<Rightarrow> (recording \<Rightarrow> nat \<Rightarrow> nat \<Rightarrow> task_result settle) \<Rightarrow> nat \<Rightarrow> limiter \<Rightarrow> limiter" where
  "unit_settles recordings processFunc i l =
     (if i \<in> set (active l) \<and> i < length recordings then
        let l0 = (case unit_result (recordings ! i) (processFunc (recordings ! i) i (length recordings)) of
                    Inr result \<Rightarrow> l\<lparr>settled := (settled l)[i := Some result]\<rparr>
                  | Inl msg \<Rightarrow> l\<lparr>rejected := rejected l @ [msg]\<rparr>);
            l1 = l0\<lparr>active := remove1 i (active l0)\<rparr>
        in (case waiting l1 of
              [] \<Rightarrow> l1
            | j # rest \<Rightarrow> l1\<lparr>waiting := rest, active := active l1 @ [j]\<rparr>)
      else l)"

text \<open>\<^verbatim>\<open>Promise.all\<close> of promises none of which is rejected: pending until every one is
  fulfilled, then the list of their values in the order of the promises.\<close>

definition Promise_all :: "'a option list \<Rightarrow> 'a list option" where
  "Promise_all ps = (if list_all (\<lambda>x. x \<noteq> None) ps then Some (map the ps) else None)"

text \<open>
  The state of the limiter after \<^verbatim>\<open>recordings.map\<close> and after the units have settled
  in the order \<open>order\<close> (a list of indices, chosen by the environment).
\<close>

definition limiter_run ::
  "recording list \<Rightarrow> (recording \<Rightarrow> nat \<Rightarrow> nat \<Rightarrow> task_result settle) \<Rightarrow> nat \<Rightarrow> nat list \<Rightarrow> limiter" where
  "limiter_run recordings processFunc k order =
     fold (unit_settles recordings processFunc) order
       (fold (limit_call k) [0..<length recordings]
          \<lparr>waiting = [], active = [], settled = [], rejected = []\<rparr>)"

text \<open>
  \<^verbatim>\<open>processRecordingsInJob\<close>. The result is \<open>None\<close> while the returned promise is pending.
  \<^verbatim>\<open>options.maxConcurrent || config.processing.maxConcurrent\<close> takes the configured value
  for an absent or zero option, and \<^verbatim>\<open>pLimit\<close> throws for a concurrency below one.
  \<^verbatim>\<open>Promise.all\<close> rejects as soon as one of the promises is rejected, with the error of
  that promise.
\<close>

definition processRecordingsInJob ::
  "recording list \<Rightarrow> (recording \<Rightarrow> nat \<Rightarrow> nat \<Rightarrow> task_result settle) \<Rightarrow> nat option \<Rightarrow> nat \<Rightarrow> nat list
     \<Rightarrow> task_result list settle option" where
  "processRecordingsInJob recordings processFunc opt_maxConcurrent config_maxConcurrent order =
     (let maxConcurrent = (case opt_maxConcurrent of
                             None \<Rightarrow> config_maxConcurrent
                           | Some k \<Rightarrow> if k = 0 then config_maxConcurrent else k)
      in if maxConcurrent < 1
         then Some (Rejects (Some ''Expected `concurrency` to be a number from 1 and up''))
         else let l = limiter_run recordings processFunc maxConcurrent order
              in (case rejected l of
                    msg # rest \<Rightarrow> Some (Rejects (Some msg))
                  | [] \<Rightarrow> map_option Resolves (Promise_all (settled l))))"

subsection \<open>Predicates on the state of the scheduler\<close>

text \<open>
  The number of jobs that have left the queue: every \<^verbatim>\<open>queueJob\<close> allocates one job
  and pushes one entry, and only \<^verbatim>\<open>processNextJob\<close> removes an entry.
\<close>

definition started :: "state \<Rightarrow> nat" where
  "started s = length (heap s) - length (jobQueue s)"

definition counter_text :: "string \<Rightarrow> string" where
  "counter_text jobId = rev (takeWhile (\<lambda>c. c \<noteq> CHR ''_'') (rev jobId))"

definition inv_alloc :: "state \<Rightarrow> bool" where
  "inv_alloc s \<longleftrightarrow>
     jobIdCounter s = length (heap s) \<and> length (promises s) = length (heap s) \<and>
     (\<forall>r < length (heap s).
        counter_text (job_id (heap s ! r)) = padStart 3 (CHR ''0'') (String_nat (Suc r)))"

definition inv_queue :: "state \<Rightarrow> bool" where
  "inv_queue s \<longleftrightarrow>
     length (jobQueue s) \<le> length (heap s) \<and>
     jobQueue s = map (\<lambda>r. \<lparr>job = r, promise = r\<rparr>) [started s..<length (heap s)] \<and>
     (\<forall>r < length (heap s). (status (heap s ! r) = Queued) = (started s \<le> r)) \<and>
     (\<forall>r < length (heap s). started s \<le> r \<longrightarrow> promises s ! r = Pending)"

fun outcome_matches :: "task_result list settle \<Rightarrow> job \<Rightarrow> bool" where
  "outcome_matches (Resolves res) j \<longleftrightarrow> status j = Completed \<and> results j = res"
| "outcome_matches (Rejects m) j \<longleftrightarrow> status j = Failed \<and> error j = m"
| "outcome_matches RejectsNullish j \<longleftrightarrow> False"

fun frame_ok :: "state \<Rightarrow> frame \<Rightarrow> bool" where
  "frame_ok s (AwaitProcess r p) \<longleftrightarrow>
     p = r \<and> Suc r = started s \<and> status (heap s ! r) = Processing \<and> promises s ! r = Pending \<and>
     (\<forall>q < r. terminal (status (heap s ! q)))"
| "frame_ok s (AwaitWebhook r p outcome inflight) \<longleftrightarrow>
     p = r \<and> Suc r = started s \<and> promises s ! r = Pending \<and>
     (\<forall>q < started s. terminal (status (heap s ! q))) \<and> outcome_matches outcome (heap s ! r)"

fun frame_job :: "frame \<Rightarrow> nat" where
  "frame_job (AwaitProcess r p) = r"
| "frame_job (AwaitWebhook r p outcome inflight) = r"

definition inv_frames :: "state \<Rightarrow> bool" where
  "inv_frames s \<longleftrightarrow>
     (case frames s of
        [] \<Rightarrow> \<not> isProcessing s \<and> currentJob s = None \<and>
              (\<forall>q < started s. terminal (status (heap s ! q)))
      | [f] \<Rightarrow> isProcessing s \<and> currentJob s = Some (frame_job f) \<and> frame_ok s f
      | _ \<Rightarrow> False)"

definition inv_times :: "state \<Rightarrow> bool" where
  "inv_times s \<longleftrightarrow>
     (\<forall>r < length (heap s).
        (status (heap s ! r) \<noteq> Queued \<longrightarrow> startedAt (heap s ! r) \<noteq> None) \<and>
        (terminal (status (heap s ! r)) \<longrightarrow> completedAt (heap s ! r) \<noteq> None))"

definition inv_store :: "state \<Rightarrow> bool" where
  "inv_store s \<longleftrightarrow>
     distinct (map fst (allJobs s)) \<and>
     (\<forall>e \<in> set (allJobs s). snd e < length (heap s) \<and> fst e = job_id (heap s ! snd e)) \<and>
     (\<forall>r < length (heap s). \<not> terminal (status (heap s ! r)) \<longrightarrow> (job_id (heap s ! r), r) \<in> set (allJobs s))"

definition scheduler_inv_weak :: "state \<Rightarrow> bool" where
  "scheduler_inv_weak s \<longleftrightarrow> inv_alloc s \<and> inv_queue s \<and> inv_frames s \<and> inv_times s \<and> inv_store s"

definition scheduler_inv :: "state \<Rightarrow> bool" where
  "scheduler_inv s \<longleftrightarrow> scheduler_inv_weak s \<and> (jobQueue s \<noteq> [] \<longrightarrow> isProcessing s)"

definition enqueued :: "options \<Rightarrow> instant \<Rightarrow> instant \<Rightarrow> state \<Rightarrow> state" where
  "enqueued opts now1 now2 s =
     (let s2 = (snd (createJob opts now1 now2 (s\<lparr>promises := promises s @ [Pending]\<rparr>)))
                 \<lparr>jobQueue := jobQueue s @ [\<lparr>job = length (heap s), promise = length (promises s)\<rparr>]\<rparr>
      in s2\<lparr>console := console s2 @ [LogQueued (job_id (heap s2 ! length (heap s))) (length (jobQueue s2))]\<rparr>)"

definition finished_job :: "job \<Rightarrow> task_result list settle \<Rightarrow> instant \<Rightarrow> job" where
  "finished_job j outcome now =
     (case outcome of
        Resolves res \<Rightarrow> j\<lparr>status := Completed, completedAt := Some now, results := res,
                     recordingsCompleted := length (filter success res),
                     recordingsFailed := length (filter (\<lambda>x. \<not> success x) res)\<rparr>
      | Rejects m \<Rightarrow> j\<lparr>status := Failed, completedAt := Some now, error := m\<rparr>
      | RejectsNullish \<Rightarrow> j\<lparr>status := Failed, completedAt := Some now\<rparr>)"

definition delivered :: "nat \<Rightarrow> nat \<Rightarrow> task_result list settle \<Rightarrow> bool \<Rightarrow> fetch_result \<Rightarrow> state \<Rightarrow> state" where
  "delivered r p outcome inflight resp s =
     (let s1 = (if inflight then sendWebhookNotification_response resp s else s);
          j = heap s1 ! r;
          s2 = (case outcome of
                  Resolves res \<Rightarrow>
                    settle_promise p (Fulfilled \<lparr>o_success = True, o_jobId = job_id j,
                      o_folder = folder j, o_total = recordingsTotal j,
                      o_completed = recordingsCompleted j, o_failed = recordingsFailed j,
                      o_results = res\<rparr>) s1
                | Rejects m \<Rightarrow> settle_promise p (Rejected m) s1
                | RejectsNullish \<Rightarrow> s1)
      in s2\<lparr>currentJob := None, isProcessing := False,
            frames := remove1 (AwaitWebhook r p outcome inflight) (frames s2)\<rparr>)"

text \<open>
  The state in which the \<^verbatim>\<open>finally\<close> block runs after a rejection with \<^verbatim>\<open>null\<close> or
  \<^verbatim>\<open>undefined\<close>, up to the call of \<^verbatim>\<open>cleanupOldJobs\<close>.
\<close>

definition aborted :: "nat \<Rightarrow> nat \<Rightarrow> instant \<Rightarrow> state \<Rightarrow> state" where
  "aborted r p now s =
     s\<lparr>heap := (heap s)[r := (heap s ! r)\<lparr>status := Failed, completedAt := Some now\<rparr>],
       currentJob := None, isProcessing := False,
       frames := remove1 (AwaitProcess r p) (frames s)\<rparr>"

text \<open>
  The identifiers in the console lines \<^verbatim>\<open>Job ... queued\<close> and \<^verbatim>\<open>Starting job ...\<close>, in
  the order in which they were written.
\<close>

definition queued_ids :: "log list \<Rightarrow> string list" where
  "queued_ids c = concat (map (\<lambda>l. case l of LogQueued i n \<Rightarrow> [i] | _ \<Rightarrow> []) c)"

definition started_ids :: "log list \<Rightarrow> string list" where
  "started_ids c = concat (map (\<lambda>l. case l of LogStarting i n \<Rightarrow> [i] | _ \<Rightarrow> []) c)"

definition inv_console :: "state \<Rightarrow> bool" where
  "inv_console s \<longleftrightarrow>
     queued_ids (console s) = map job_id (heap s) \<and>
     started_ids (console s) = take (started s) (map job_id (heap s))"

text \<open>The two counters of a job agree with its list of results.\<close>

definition counts_match :: "job \<Rightarrow> bool" where
  "counts_match j \<longleftrightarrow>
     recordingsCompleted j = length (filter success (results j)) \<and>
     recordingsFailed j = length (filter (\<lambda>x. \<not> success x) (results j))"

text \<open>
  A job of which no invocation is going to settle the promise: it has left the queue,
  its promise is pending, and the suspended invocation, if there is one, holds a later
  job.
\<close>

definition orphaned :: "nat \<Rightarrow> state \<Rightarrow> bool" where
  "orphaned r s \<longleftrightarrow>
     r < started s \<and> r < length (promises s) \<and> promises s ! r = Pending \<and>
     (frames s = [] \<or> Suc r < started s)"

text \<open>The console lines for a result of \<^verbatim>\<open>fetch\<close>, and the value with which
  \<^verbatim>\<open>processNextJob\<close> settles the promise of a job.\<close>

definition response_lines :: "fetch_result \<Rightarrow> log list" where
  "response_lines resp =
     (case resp of
        Response ok code txt \<Rightarrow> if \<not> ok then [LogWebhookFailed code txt] else [LogWebhookSent]
      | FetchThrew msg \<Rightarrow> [LogWebhookError msg])"

definition settlement :: "task_result list settle \<Rightarrow> job \<Rightarrow> promise_state" where
  "settlement outcome j =
     (case outcome of
        Resolves res \<Rightarrow> Fulfilled \<lparr>o_success = True, o_jobId = job_id j, o_folder = folder j,
          o_total = recordingsTotal j, o_completed = recordingsCompleted j,
          o_failed = recordingsFailed j, o_results = res\<rparr>
      | Rejects m \<Rightarrow> Rejected m
      | RejectsNullish \<Rightarrow> Pending)"

text \<open>The entries of the store whose job is completed or failed, in the order of the map.\<close>

definition terminal_entries :: "state \<Rightarrow> (string \<times> nat) list" where
  "terminal_entries s = filter (\<lambda>e. terminal (status (heap s ! snd e))) (allJobs s)"

text \<open>The finished jobs of the heap, and whether an invocation is suspended at the
  notification.\<close>

definition finished_jobs :: "state \<Rightarrow> job list" where
  "finished_jobs s = filter (\<lambda>j. terminal (status j)) (heap s)"

fun is_AwaitWebhook :: "frame \<Rightarrow> bool" where
  "is_AwaitWebhook (AwaitWebhook r p outcome inflight) = True"
| "is_AwaitWebhook (AwaitProcess r p) = False"

definition inv_retention :: "state \<Rightarrow> bool" where
  "inv_retention s \<longleftrightarrow>
     length (terminal_entries s) =
       (if list_ex is_AwaitWebhook (frames s)
        then Suc (min 50 (length (finished_jobs s) - 1))
        else min 50 (length (finished_jobs s)))"

text \<open>
  The jobs whose invocation is suspended at the notification (at most one), and the
  order of the store: apart from such a job, every finished job of the store was
  completed no earlier than any job that has left the store.
\<close>

fun waiting_jobs :: "frame list \<Rightarrow> nat list" where
  "waiting_jobs [] = []"
| "waiting_jobs (AwaitWebhook r p outcome inflight # fs) = r # waiting_jobs fs"
| "waiting_jobs (AwaitProcess r p # fs) = waiting_jobs fs"

definition inv_recent :: "state \<Rightarrow> bool" where
  "inv_recent s \<longleftrightarrow>
     (\<forall>d < length (heap s). \<forall>e \<in> set (terminal_entries s).
        (job_id (heap s ! d), d) \<notin> set (allJobs s) \<and> snd e \<notin> set (waiting_jobs (frames s)) \<longrightarrow>
        completedAt_time (heap s ! d) \<le> completedAt_time (heap s ! snd e))"

text \<open>
  What the specification asks of a unit: the result of \<^verbatim>\<open>processFunc\<close>, and for a failure
  the object with \<^verbatim>\<open>success: false\<close> and the message; and of the batch: these results in the
  order of the input.
\<close>

definition expected_result :: "recording \<Rightarrow> task_result settle \<Rightarrow> task_result" where
  "expected_result recording outcome =
     (case outcome of
        Resolves result \<Rightarrow> result
      | Rejects m \<Rightarrow> \<lparr>success = False, sessionId = rec_sessionId recording,
                         task_error = m, extra = []\<rparr>
      | RejectsNullish \<Rightarrow> \<lparr>success = False, sessionId = rec_sessionId recording,
                         task_error = None, extra = []\<rparr>)"

definition expected_results ::
  "recording list \<Rightarrow> (recording \<Rightarrow> nat \<Rightarrow> nat \<Rightarrow> task_result settle) \<Rightarrow> task_result list" where
  "expected_results recordings processFunc =
     map (\<lambda>i. expected_result (recordings ! i) (processFunc (recordings ! i) i (length recordings)))
       [0..<length recordings]"

text \<open>No call of \<^verbatim>\<open>processFunc\<close> rejects with \<^verbatim>\<open>null\<close> or \<^verbatim>\<open>undefined\<close>.\<close>

definition readable ::
  "recording list \<Rightarrow> (recording \<Rightarrow> nat \<Rightarrow> nat \<Rightarrow> task_result settle) \<Rightarrow> bool" where
  "readable recordings processFunc \<longleftrightarrow>
     list_all (\<lambda>i. processFunc (recordings ! i) i (length recordings) \<noteq> RejectsNullish)
       [0..<length recordings]"

text \<open>No promise of the limiter is rejected, and every one is pending or holds the
  result of its own unit.\<close>

definition settled_ok ::
  "recording list \<Rightarrow> (recording \<Rightarrow> nat \<Rightarrow> nat \<Rightarrow> task_result settle) \<Rightarrow> limiter \<Rightarrow> bool" where
  "settled_ok recordings processFunc l \<longleftrightarrow>
     length (settled l) = length recordings \<and> rejected l = [] \<and>
     (\<forall>i < length recordings.
        settled l ! i = None \<or> settled l ! i = Some (expected_results recordings processFunc ! i))"

subsection \<open>Inputs for the examples\<close>

definition at_1430 :: instant where
  "at_1430 = \<lparr>time_value = 1737642622123, toISOString = ''2025-01-23T14:30:22.123Z''\<rparr>"

definition two_recordings :: options where
  "two_recordings = \<lparr>opt_outputDir = None, opt_recordingsCount = Some 2,
     opt_webhookUrl = Some ''https://example.test/hook'', opt_uploadToGdrive = None, opt_metadata = None\<rparr>"

definition ok_result :: task_result where
  "ok_result = \<lparr>success = True, sessionId = ''s1'', task_error = None, extra = []\<rparr>"

text \<open>
  Two jobs are submitted; the callback of the first resolves with one result, its
  notification is delivered, and the second job starts.
\<close>

definition example_events :: "event list" where
  "example_events =
     [QueueJob two_recordings at_1430 at_1430 at_1430,
      QueueJob two_recordings at_1430 at_1430 at_1430,
      ProcessSettled 0 0 (Resolves [ok_result]) at_1430 at_1430,
      WebhookSettled 0 0 (Resolves [ok_result]) True (Response True 200 ''OK'') at_1430]"

text \<open>Two jobs are submitted; the callback of the first rejects with \<^verbatim>\<open>null\<close>.\<close>

definition nullish_events :: "event list" where
  "nullish_events =
     [QueueJob two_recordings at_1430 at_1430 at_1430,
      QueueJob two_recordings at_1430 at_1430 at_1430,
      ProcessSettled 0 0 RejectsNullish at_1430 at_1430]"

text \<open>
  The clock \<open>k\<close> milliseconds after the reading above (a date of the same second for
  \<open>k\<close> below 877).
\<close>

definition tick :: "nat \<Rightarrow> instant" where
  "tick k = \<lparr>time_value = 1737642622123 + int k,
     toISOString = ''2025-01-23T14:30:22.'' @ padStart 3 (CHR ''0'') (String_nat (123 + k)) @ ''Z''\<rparr>"

text \<open>
  The events of one job that is submitted to an idle scheduler as its job \<open>k\<close>, whose
  callback resolves and whose notification is delivered, at the time \<open>tick k\<close>; \<open>n\<close> such
  jobs one after the other; and 51 jobs of which the last is finished and still waits for
  the response to its request.
\<close>

definition served :: "nat \<Rightarrow> event list" where
  "served k =
     [QueueJob two_recordings (tick k) (tick k) (tick k),
      ProcessSettled k k (Resolves [ok_result]) (tick k) (tick k),
      WebhookSettled k k (Resolves [ok_result]) True (Response True 200 ''OK'') (tick k)]"

definition many_jobs :: "nat \<Rightarrow> event list" where
  "many_jobs n = concat (map served [0..<n])"

definition fifty_one_finished :: "event list" where
  "fifty_one_finished = many_jobs 50 @ take 2 (served 50)"

text \<open>
  Three recordings, and a \<^verbatim>\<open>processFunc\<close> that resolves for the first and the third and
  fails in a given way for the second.
\<close>

definition three_recordings :: "recording list" where
  "three_recordings =
     [\<lparr>rec_sessionId = ''a'', rec_playbackUrl = ''https://example.test/a''\<rparr>,
      \<lparr>rec_sessionId = ''b'', rec_playbackUrl = ''https://example.test/b''\<rparr>,
      \<lparr>rec_sessionId = ''c'', rec_playbackUrl = ''https://example.test/c''\<rparr>]"

definition second_fails :: "task_result settle \<Rightarrow> recording \<Rightarrow> nat \<Rightarrow> nat \<Rightarrow> task_result settle" where
  "second_fails failure recording i n =
     (if i = 1 then failure
      else Resolves \<lparr>success = True, sessionId = rec_sessionId recording, task_error = None, extra = []\<rparr>)"

section \<open>Properties of the identifiers\<close>

lemma String_nat_not_Nil: "String_nat n \<noteq> []"
  by (subst String_nat.simps) simp

lemma digit_char_inj: "a < 10 \<Longrightarrow> b < 10 \<Longrightarrow> digit_char a = digit_char b \<Longrightarrow> a = b"
proof -
  have "distinct ''0123456789''" by simp
  moreover assume "a < 10" "b < 10" "digit_char a = digit_char b"
  ultimately show "a = b"
    by (simp add: digit_char_def nth_eq_iff_index_eq)
qed

lemma digit_char_is_digit: "d < 10 \<Longrightarrow> digit_char d \<in> set ''0123456789''"
  unfolding digit_char_def by (rule nth_mem) simp

lemma digit_char_zero: "d < 10 \<Longrightarrow> digit_char d = CHR ''0'' \<longleftrightarrow> d = 0"
  using digit_char_inj [of d 0] by (auto simp: digit_char_def)

lemma String_nat_digits: "set (String_nat n) \<subseteq> set ''0123456789''"
proof (induction n rule: String_nat.induct)
  case (1 n)
  show ?case
  proof (cases "n < 10")
    case True
    then show ?thesis
      using digit_char_is_digit [of n] by (subst String_nat.simps) simp
  next
    case False
    have "n mod 10 < 10" by simp
    then have "digit_char (n mod 10) \<in> set ''0123456789''"
      by (rule digit_char_is_digit)
    with False "1.IH" show ?thesis
      by (subst String_nat.simps) simp
  qed
qed

lemma String_nat_inj: "String_nat n = String_nat m \<Longrightarrow> n = m"
proof (induction n arbitrary: m rule: String_nat.induct)
  case (1 n)
  show ?case
  proof (cases "n < 10")
    case n: True
    show ?thesis
    proof (cases "m < 10")
      case True
      with n "1.prems" show ?thesis
        by (simp add: String_nat.simps [of n] String_nat.simps [of m] digit_char_inj)
    next
      case False
      with n "1.prems" String_nat_not_Nil [of "m div 10"] show ?thesis
        by (simp add: String_nat.simps [of n] String_nat.simps [of m])
    qed
  next
    case n: False
    show ?thesis
    proof (cases "m < 10")
      case True
      with n "1.prems" String_nat_not_Nil [of "n div 10"] show ?thesis
        by (simp add: String_nat.simps [of n] String_nat.simps [of m])
    next
      case False
      with n "1.prems" have e: "String_nat (n div 10) = String_nat (m div 10)"
        and d: "digit_char (n mod 10) = digit_char (m mod 10)"
        by (simp_all add: String_nat.simps [of n] String_nat.simps [of m])
      from "1.IH" [OF n e] have "n div 10 = m div 10" .
      moreover from d have "n mod 10 = m mod 10"
        by (intro digit_char_inj) simp_all
      ultimately show ?thesis
        by (metis div_mult_mod_eq)
    qed
  qed
qed

lemma String_nat_hd: "0 < n \<Longrightarrow> hd (String_nat n) \<noteq> CHR ''0''"
proof (induction n rule: String_nat.induct)
  case (1 n)
  show ?case
  proof (cases "n < 10")
    case True
    with "1.prems" show ?thesis
      by (simp add: String_nat.simps [of n] digit_char_zero)
  next
    case False
    then have "0 < n div 10" by simp
    with "1.IH" False have "hd (String_nat (n div 10)) \<noteq> CHR ''0''" by simp
    with False String_nat_not_Nil [of "n div 10"] show ?thesis
      by (simp add: String_nat.simps [of n])
  qed
qed

lemma dropWhile_padStart:
  assumes "s \<noteq> []" "hd s \<noteq> c"
  shows "dropWhile (\<lambda>x. x = c) (padStart w c s) = s"
proof -
  from assms obtain a t where s: "s = a # t" and a: "a \<noteq> c"
    by (cases s) auto
  have "dropWhile (\<lambda>x. x = c) (replicate k c @ a # t) = a # t" for k
    using a by (induction k) auto
  then show ?thesis by (simp add: padStart_def s)
qed

lemma counter_text_inj:
  "padStart 3 (CHR ''0'') (String_nat (Suc a)) = padStart 3 (CHR ''0'') (String_nat (Suc b)) \<Longrightarrow> a = b"
proof -
  assume e: "padStart 3 (CHR ''0'') (String_nat (Suc a)) = padStart 3 (CHR ''0'') (String_nat (Suc b))"
  have "String_nat (Suc a) = dropWhile (\<lambda>x. x = CHR ''0'') (padStart 3 (CHR ''0'') (String_nat (Suc a)))"
    by (simp add: dropWhile_padStart String_nat_not_Nil String_nat_hd)
  also have "\<dots> = dropWhile (\<lambda>x. x = CHR ''0'') (padStart 3 (CHR ''0'') (String_nat (Suc b)))"
    by (simp only: e)
  also have "\<dots> = String_nat (Suc b)"
    by (simp add: dropWhile_padStart String_nat_not_Nil String_nat_hd)
  finally show "a = b"
    using String_nat_inj by blast
qed

lemma counter_text_no_underscore:
  "CHR ''_'' \<notin> set (padStart 3 (CHR ''0'') (String_nat n))"
proof -
  have "set (padStart 3 (CHR ''0'') (String_nat n)) \<subseteq> set ''0123456789''"
    using String_nat_digits [of n] by (auto simp: padStart_def)
  then show ?thesis by auto
qed

lemma last_field_eq:
  assumes "p @ CHR ''_'' # u = q @ CHR ''_'' # v"
    and "CHR ''_'' \<notin> set u" "CHR ''_'' \<notin> set v"
  shows "u = v"
proof -
  have "takeWhile (\<lambda>x. x \<noteq> CHR ''_'') (rev (p @ CHR ''_'' # u)) = rev u"
    if "CHR ''_'' \<notin> set u" for p u
    using that by (auto simp: takeWhile_tail)
  from this [OF assms(2), of p] this [OF assms(3), of q] assms(1) have "rev u = rev v" by simp
  then show ?thesis by simp
qed

lemma generateJobId_inj:
  "fst (generateJobId now1 c1) = fst (generateJobId now2 c2) \<Longrightarrow> c1 = c2"
proof -
  assume e: "fst (generateJobId now1 c1) = fst (generateJobId now2 c2)"
  let ?u = "padStart 3 (CHR ''0'') (String_nat (Suc c1))"
  let ?v = "padStart 3 (CHR ''0'') (String_nat (Suc c2))"
  from e have "(''job_'' @ timestamp now1) @ CHR ''_'' # ?u = (''job_'' @ timestamp now2) @ CHR ''_'' # ?v"
    by (simp add: generateJobId_def)
  then have "?u = ?v"
    by (rule last_field_eq) (rule counter_text_no_underscore)+
  then show "c1 = c2" by (rule counter_text_inj)
qed


section \<open>The reachable states\<close>

text \<open>
  The predicate \<open>scheduler_inv\<close> holds initially and is kept by every event. It says
  that the jobs of the heap are, in the order of their creation, finished jobs, then at
  most one job that the single suspended invocation is working on, then the queued jobs,
  which are exactly the entries of \<^verbatim>\<open>jobQueue\<close> in the same order.
\<close>

lemma counter_text_generateJobId:
  "counter_text (fst (generateJobId now c)) = padStart 3 (CHR ''0'') (String_nat (Suc c))"
proof -
  have "takeWhile (\<lambda>x. x \<noteq> CHR ''_'') (rev (p @ CHR ''_'' # u)) = rev u"
    if "CHR ''_'' \<notin> set u" for p u
    using that by (auto simp: takeWhile_tail)
  from this [OF counter_text_no_underscore, of "''job_'' @ timestamp now" "Suc c"]
  show ?thesis by (simp add: counter_text_def generateJobId_def)
qed

lemma scheduler_inv_init: "scheduler_inv init"
  by (simp add: scheduler_inv_def scheduler_inv_weak_def inv_alloc_def inv_queue_def inv_frames_def inv_times_def inv_store_def init_def started_def)

lemma processNextJob_idle: "isProcessing s \<or> jobQueue s = [] \<Longrightarrow> processNextJob now s = s"
  by (simp add: processNextJob_def)

lemma processNextJob_start:
  "\<not> isProcessing s \<Longrightarrow> jobQueue s = e # q \<Longrightarrow>
   processNextJob now s =
     s\<lparr>isProcessing := True, jobQueue := q, currentJob := Some (job e),
       console := console s @ [LogStarting (job_id (heap s ! job e)) (recordingsTotal (heap s ! job e)),
                    LogQueueLength (length q)],
       heap := (heap s)[job e := (heap s ! job e)\<lparr>status := Processing, startedAt := Some now\<rparr>],
       frames := frames s @ [AwaitProcess (job e) (promise e)]\<rparr>"
  by (simp add: processNextJob_def Let_def)

lemma createJob_eq:
  "createJob opts now1 now2 s =
     (length (heap s),
      s\<lparr>jobIdCounter := Suc (jobIdCounter s),
        heap := heap s @ [\<lparr>job_id = fst (generateJobId now1 (jobIdCounter s)), status = Queued,
           folder = createJobFolder (fst (generateJobId now1 (jobIdCounter s)))
             (if truthy (opt_outputDir opts) then the (opt_outputDir opts) else ''./recordings''),
           createdAt = now2, startedAt = None, completedAt = None,
           recordingsTotal = (case opt_recordingsCount opts of None \<Rightarrow> 0 | Some n \<Rightarrow> n),
           recordingsCompleted = 0, recordingsFailed = 0, results = [], error = None,
           webhookUrl = (if truthy (opt_webhookUrl opts) then opt_webhookUrl opts else None),
           uploadToGdrive = (case opt_uploadToGdrive opts of None \<Rightarrow> False | Some b \<Rightarrow> b),
           metadata = (case opt_metadata opts of None \<Rightarrow> [] | Some m \<Rightarrow> m)\<rparr>],
        allJobs := AList.update (fst (generateJobId now1 (jobIdCounter s))) (length (heap s)) (allJobs s),
        console := console s @ [LogCreated (fst (generateJobId now1 (jobIdCounter s)))
          (createJobFolder (fst (generateJobId now1 (jobIdCounter s)))
             (if truthy (opt_outputDir opts) then the (opt_outputDir opts) else ''./recordings''))]\<rparr>)"
  by (simp add: createJob_def Let_def generateJobId_def)

lemma queue_head:
  assumes "inv_queue s" "jobQueue s = e # q"
  shows "e = \<lparr>job = started s, promise = started s\<rparr>" "started s < length (heap s)"
    "q = map (\<lambda>r. \<lparr>job = r, promise = r\<rparr>) [Suc (started s)..<length (heap s)]"
    "length (heap s) - length q = Suc (started s)"
proof -
  from assms have l: "length (jobQueue s) \<le> length (heap s)"
    and m: "e # q = map (\<lambda>r. \<lparr>job = r, promise = r\<rparr>) [started s..<length (heap s)]"
    by (simp_all add: inv_queue_def)
  from l assms(2) show lt: "started s < length (heap s)"
    by (simp add: started_def)
  then have u: "[started s..<length (heap s)] = started s # [Suc (started s)..<length (heap s)]"
    by (simp add: upt_conv_Cons)
  from m u show "e = \<lparr>job = started s, promise = started s\<rparr>"
    and q: "q = map (\<lambda>r. \<lparr>job = r, promise = r\<rparr>) [Suc (started s)..<length (heap s)]"
    by simp_all
  from q lt show "length (heap s) - length q = Suc (started s)"
    by simp
qed

lemma idle_frames: "inv_frames s \<Longrightarrow> \<not> isProcessing s \<Longrightarrow> frames s = []"
  by (auto simp: inv_frames_def split: list.splits)

lemma processNextJob_inv_weak:
  assumes "scheduler_inv_weak s"
  shows "scheduler_inv_weak (processNextJob now s)"
proof (cases "isProcessing s \<or> jobQueue s = []")
  case True
  with assms show ?thesis by (simp add: processNextJob_idle)
next
  case False
  then obtain e q where eq: "jobQueue s = e # q" and idle: "\<not> isProcessing s"
    by (cases "jobQueue s") auto
  from assms have a: "inv_alloc s" and qu: "inv_queue s" and fr: "inv_frames s"
    and ti: "inv_times s" and st: "inv_store s"
    by (simp_all add: scheduler_inv_weak_def)
  note h = queue_head [OF qu eq]
  from fr idle have f0: "frames s = []" by (rule idle_frames)
  let ?s = "processNextJob now s"
  have s': "?s = s\<lparr>isProcessing := True, jobQueue := q, currentJob := Some (started s),
       console := console s @ [LogStarting (job_id (heap s ! started s)) (recordingsTotal (heap s ! started s)),
                    LogQueueLength (length q)],
       heap := (heap s)[started s := (heap s ! started s)\<lparr>status := Processing, startedAt := Some now\<rparr>],
       frames := [AwaitProcess (started s) (started s)]\<rparr>"
    using processNextJob_start [OF idle eq, of now] h(1) f0 by simp
  have st': "started ?s = Suc (started s)"
    using h(4) by (simp add: s' started_def)
  have "inv_alloc ?s"
    using a h(2) by (auto simp: s' inv_alloc_def nth_list_update)
  moreover have "inv_queue ?s"
    unfolding inv_queue_def st'
    using qu h(2,3) by (auto simp: s' inv_queue_def nth_list_update)
  moreover have "inv_frames ?s"
    unfolding inv_frames_def
    using fr f0 qu h(2) st' by (auto simp: s' inv_frames_def inv_queue_def nth_list_update)
  moreover have "inv_times ?s"
    using ti h(2) by (auto simp: s' inv_times_def nth_list_update terminal_def)
  moreover have "inv_store ?s"
  proof -
    from qu h(2) have "status (heap s ! started s) = Queued"
      by (simp add: inv_queue_def)
    with st h(2) show ?thesis
      by (auto simp: s' inv_store_def nth_list_update terminal_def)
  qed
  ultimately show ?thesis by (simp add: scheduler_inv_weak_def)
qed

lemma processNextJob_busy: "jobQueue (processNextJob now s) \<noteq> [] \<Longrightarrow> isProcessing (processNextJob now s)"
  by (cases "isProcessing s \<or> jobQueue s = []") (auto simp: processNextJob_def Let_def)

lemma processNextJob_inv: "scheduler_inv_weak s \<Longrightarrow> scheduler_inv (processNextJob now s)"
  using processNextJob_inv_weak processNextJob_busy by (simp add: scheduler_inv_def)

lemma queueJob_eq:
  "queueJob opts now1 now2 now3 s = (length (promises s), processNextJob now3 (enqueued opts now1 now2 s))"
  by (simp add: queueJob_def enqueued_def createJob_eq Let_def)

lemma enqueued_heap:
  "heap (enqueued opts now1 now2 s) = heap s @ [last (heap (enqueued opts now1 now2 s))]"
  by (simp add: enqueued_def createJob_eq Let_def)

lemma enqueued_fields:
  "job_id (last (heap (enqueued opts now1 now2 s))) = fst (generateJobId now1 (jobIdCounter s))"
  "status (last (heap (enqueued opts now1 now2 s))) = Queued"
  "startedAt (last (heap (enqueued opts now1 now2 s))) = None"
  "completedAt (last (heap (enqueued opts now1 now2 s))) = None"
  "jobQueue (enqueued opts now1 now2 s) = jobQueue s @ [\<lparr>job = length (heap s), promise = length (promises s)\<rparr>]"
  "promises (enqueued opts now1 now2 s) = promises s @ [Pending]"
  "jobIdCounter (enqueued opts now1 now2 s) = Suc (jobIdCounter s)"
  "allJobs (enqueued opts now1 now2 s) = AList.update (fst (generateJobId now1 (jobIdCounter s))) (length (heap s)) (allJobs s)"
  "frames (enqueued opts now1 now2 s) = frames s"
  "isProcessing (enqueued opts now1 now2 s) = isProcessing s"
  "currentJob (enqueued opts now1 now2 s) = currentJob s"
  "fetches (enqueued opts now1 now2 s) = fetches s"
  "stats (enqueued opts now1 now2 s) = stats s"
  by (simp_all add: enqueued_def createJob_eq Let_def)

lemma update_fresh: "k \<notin> fst ` set al \<Longrightarrow> AList.update k v al = al @ [(k, v)]"
  by (induction al) auto

lemma fresh_id:
  assumes "inv_alloc s" "inv_store s"
  shows "fst (generateJobId now (jobIdCounter s)) \<notin> fst ` set (allJobs s)"
proof
  assume "fst (generateJobId now (jobIdCounter s)) \<in> fst ` set (allJobs s)"
  then obtain e where e: "e \<in> set (allJobs s)" and k: "fst e = fst (generateJobId now (jobIdCounter s))"
    by auto
  from assms(2) e have r: "snd e < length (heap s)" and i: "fst e = job_id (heap s ! snd e)"
    by (simp_all add: inv_store_def)
  from assms(1) r have "counter_text (job_id (heap s ! snd e)) = padStart 3 (CHR ''0'') (String_nat (Suc (snd e)))"
    by (simp add: inv_alloc_def)
  moreover from i k have "counter_text (job_id (heap s ! snd e)) = counter_text (fst (generateJobId now (jobIdCounter s)))"
    by simp
  ultimately have "padStart 3 (CHR ''0'') (String_nat (Suc (snd e))) = padStart 3 (CHR ''0'') (String_nat (Suc (jobIdCounter s)))"
    by (simp only: counter_text_generateJobId)
  then have "snd e = jobIdCounter s" by (rule counter_text_inj)
  with assms(1) r show False by (simp add: inv_alloc_def)
qed

lemma enqueued_inv_weak:
  assumes "scheduler_inv_weak s"
  shows "scheduler_inv_weak (enqueued opts now1 now2 s)"
proof -
  from assms have a: "inv_alloc s" and qu: "inv_queue s" and fr: "inv_frames s"
    and ti: "inv_times s" and st: "inv_store s"
    by (simp_all add: scheduler_inv_weak_def)
  let ?s = "enqueued opts now1 now2 s"
  note f = enqueued_fields [of opts now1 now2 s]
  from a have c: "jobIdCounter s = length (heap s)" and pl: "length (promises s) = length (heap s)"
    by (simp_all add: inv_alloc_def)
  from qu have ql: "length (jobQueue s) \<le> length (heap s)" by (simp add: inv_queue_def)
  note hp = enqueued_heap [of opts now1 now2 s]
  have len: "length (heap ?s) = Suc (length (heap s))"
    by (subst hp) simp
  have old: "heap ?s ! r = heap s ! r" if "r < length (heap s)" for r
    using that by (subst hp) (simp add: nth_append)
  have new: "heap ?s ! length (heap s) = last (heap ?s)"
    by (subst hp) simp
  have st': "started ?s = started s"
    using ql by (simp add: started_def len f)
  have sl: "started s \<le> length (heap s)"
    by (simp add: started_def)
  have "inv_alloc ?s"
    unfolding inv_alloc_def len
    using a by (auto simp: inv_alloc_def f less_Suc_eq old new counter_text_generateJobId)
  moreover have "inv_queue ?s"
    unfolding inv_queue_def len st'
    using qu sl by (auto simp: inv_queue_def f less_Suc_eq old new pl nth_append)
  moreover have "inv_frames ?s"
  proof (cases "frames s")
    case Nil
    with fr sl show ?thesis
      by (auto simp: inv_frames_def f st' old)
  next
    case (Cons fr1 rest)
    with fr have rest: "rest = []" by (auto simp: inv_frames_def split: list.splits)
    from fr Cons rest have ok: "frame_ok s fr1" and ip: "isProcessing s" and cj: "currentJob s = Some (frame_job fr1)"
      by (simp_all add: inv_frames_def)
    from ok sl pl have "frame_ok ?s fr1"
      by (cases fr1) (auto simp: st' old f nth_append)
    with ip cj Cons rest show ?thesis
      by (simp add: inv_frames_def f)
  qed
  moreover have "inv_times ?s"
    unfolding inv_times_def len
    using ti by (auto simp: inv_times_def f less_Suc_eq old new terminal_def)
  moreover have "inv_store ?s"
  proof -
    have u: "allJobs ?s = allJobs s @ [(fst (generateJobId now1 (jobIdCounter s)), length (heap s))]"
      using fresh_id [OF a st, of now1] by (simp add: f update_fresh)
    show ?thesis
      unfolding inv_store_def len u
      using st fresh_id [OF a st, of now1]
      by (auto simp: inv_store_def less_Suc_eq old new f terminal_def)
  qed
  ultimately show ?thesis by (simp add: scheduler_inv_weak_def)
qed

lemma queueJob_inv: "scheduler_inv s \<Longrightarrow> scheduler_inv (snd (queueJob opts now1 now2 now3 s))"
  by (simp add: queueJob_eq scheduler_inv_def enqueued_inv_weak processNextJob_inv_weak processNextJob_busy)

lemma sole_frame: "inv_frames s \<Longrightarrow> f \<in> set (frames s) \<Longrightarrow> frames s = [f]"
  by (auto simp: inv_frames_def split: list.splits)

lemma after_process_fields:
  assumes "outcome \<noteq> RejectsNullish"
  shows "heap (after_process r p outcome now later s) = (heap s)[r := finished_job (heap s ! r) outcome now]"
  "jobQueue (after_process r p outcome now later s) = jobQueue s"
  "promises (after_process r p outcome now later s) = promises s"
  "jobIdCounter (after_process r p outcome now later s) = jobIdCounter s"
  "allJobs (after_process r p outcome now later s) = allJobs s"
  "frames (after_process r p outcome now later s) = remove1 (AwaitProcess r p) (frames s) @
     [AwaitWebhook r p outcome (truthy (webhookUrl (heap s ! r)))]"
  "isProcessing (after_process r p outcome now later s) = isProcessing s"
  "currentJob (after_process r p outcome now later s) = currentJob s"
  using assms
  by (simp_all add: after_process_def finished_job_def sendWebhookNotification_request_def Let_def
      split: settle.splits)

lemma after_process_nullish:
  "after_process r p RejectsNullish now later s = processNextJob later (cleanupOldJobs (aborted r p now s))"
  by (simp add: after_process_def aborted_def Let_def)

lemma aborted_fields:
  "heap (aborted r p now s) = (heap s)[r := finished_job (heap s ! r) RejectsNullish now]"
  "jobQueue (aborted r p now s) = jobQueue s"
  "promises (aborted r p now s) = promises s"
  "jobIdCounter (aborted r p now s) = jobIdCounter s"
  "allJobs (aborted r p now s) = allJobs s"
  "frames (aborted r p now s) = remove1 (AwaitProcess r p) (frames s)"
  "isProcessing (aborted r p now s) = False"
  "currentJob (aborted r p now s) = None"
  "console (aborted r p now s) = console s"
  "fetches (aborted r p now s) = fetches s"
  "stats (aborted r p now s) = stats s"
  by (simp_all add: aborted_def finished_job_def)

lemma finished_job_fields:
  "job_id (finished_job j outcome now) = job_id j"
  "terminal (status (finished_job j outcome now))"
  "status (finished_job j outcome now) \<noteq> Queued"
  "status (finished_job j outcome now) \<noteq> Processing"
  "startedAt (finished_job j outcome now) = startedAt j"
  "completedAt (finished_job j outcome now) = Some now"
  "webhookUrl (finished_job j outcome now) = webhookUrl j"
  by (simp_all add: finished_job_def terminal_def split: settle.splits)

lemma after_process_inv:
  assumes "scheduler_inv s" "AwaitProcess r p \<in> set (frames s)" "outcome \<noteq> RejectsNullish"
  shows "scheduler_inv (after_process r p outcome now later s)"
proof -
  from assms(1) have a: "inv_alloc s" and qu: "inv_queue s" and fr: "inv_frames s"
    and ti: "inv_times s" and st: "inv_store s" and busy: "jobQueue s \<noteq> [] \<longrightarrow> isProcessing s"
    by (simp_all add: scheduler_inv_def scheduler_inv_weak_def)
  let ?s = "after_process r p outcome now later s"
  note f = after_process_fields [OF assms(3)]
  note j = finished_job_fields
  from fr assms(2) have fs: "frames s = [AwaitProcess r p]" by (rule sole_frame)
  with fr have ip: "isProcessing s" and cj: "currentJob s = Some r" and p: "p = r"
    and sr: "Suc r = started s" and pr: "status (heap s ! r) = Processing"
    and pe: "promises s ! r = Pending" and below: "\<forall>q < r. terminal (status (heap s ! q))"
    by (simp_all add: inv_frames_def)
  from sr have r: "r < length (heap s)" by (auto simp: started_def)
  have st': "started ?s = started s"
    by (simp add: started_def f)
  have "inv_alloc ?s"
    using a r by (auto simp: inv_alloc_def f j nth_list_update)
  moreover have "inv_queue ?s"
    unfolding inv_queue_def st'
    using qu r sr pr by (auto simp: inv_queue_def f j nth_list_update)
  moreover have "inv_frames ?s"
  proof -
    have "frame_ok ?s (AwaitWebhook r p outcome (truthy (webhookUrl (heap s ! r))))"
      using p sr [symmetric] pe below r assms(3)
      by (cases outcome)
        (auto simp: started_def after_process_fields nth_list_update less_Suc_eq finished_job_def terminal_def)
    with ip cj show ?thesis
      by (simp add: inv_frames_def f fs)
  qed
  moreover have "inv_times ?s"
    using ti r pr by (auto simp: inv_times_def f j nth_list_update)
  moreover have "inv_store ?s"
    using st r by (auto simp: inv_store_def f j nth_list_update)
  moreover have "jobQueue ?s \<noteq> [] \<longrightarrow> isProcessing ?s"
    using busy by (simp add: f)
  ultimately show ?thesis by (simp add: scheduler_inv_def scheduler_inv_weak_def)
qed

lemma fold_delete:
  "fold (\<lambda>e. AList.delete (fst e)) ds al = filter (\<lambda>e. fst e \<notin> fst ` set ds) al"
proof (induction ds arbitrary: al)
  case Nil
  show ?case by simp
next
  case (Cons d ds)
  have "AList.delete (fst d) al = filter (\<lambda>e. fst e \<noteq> fst d) al"
    by (induction al) auto
  with Cons show ?case
    by (auto intro: filter_cong)
qed

lemma cleanupOldJobs_fields:
  "heap (cleanupOldJobs s) = heap s"
  "jobQueue (cleanupOldJobs s) = jobQueue s"
  "promises (cleanupOldJobs s) = promises s"
  "jobIdCounter (cleanupOldJobs s) = jobIdCounter s"
  "frames (cleanupOldJobs s) = frames s"
  "isProcessing (cleanupOldJobs s) = isProcessing s"
  "currentJob (cleanupOldJobs s) = currentJob s"
  "console (cleanupOldJobs s) = console s"
  "fetches (cleanupOldJobs s) = fetches s"
  "stats (cleanupOldJobs s) = stats s"
  by (simp_all add: cleanupOldJobs_def Let_def)

lemma cleanupOldJobs_allJobs:
  "allJobs (cleanupOldJobs s) =
     (if 50 < length (completed_entries s)
      then filter (\<lambda>e. fst e \<notin> fst ` set (drop 50 (completed_entries s))) (allJobs s)
      else allJobs s)"
  by (simp add: cleanupOldJobs_def Let_def fold_delete)

lemma completed_entries_set:
  "set (completed_entries s) = {e \<in> set (allJobs s). terminal (status (heap s ! snd e))}"
  by (auto simp: completed_entries_def terminal_def)

lemma dropped_key:
  assumes "distinct (map fst (allJobs s))" "e \<in> set (allJobs s)"
  shows "fst e \<in> fst ` set (drop 50 (completed_entries s)) \<longleftrightarrow> e \<in> set (drop 50 (completed_entries s))"
proof
  assume "fst e \<in> fst ` set (drop 50 (completed_entries s))"
  then obtain d where d: "d \<in> set (drop 50 (completed_entries s))" and k: "fst d = fst e"
    by auto
  from d have "d \<in> set (completed_entries s)" by (rule in_set_dropD)
  then have "d \<in> set (allJobs s)" by (simp add: completed_entries_set)
  with assms k have "d = e"
    by (metis eq_key_imp_eq_value prod.collapse)
  with d show "e \<in> set (drop 50 (completed_entries s))" by simp
qed auto

lemma cleanupOldJobs_store:
  assumes "inv_store s"
  shows "inv_store (cleanupOldJobs s)"
proof -
  from assms have d: "distinct (map fst (allJobs s))" by (simp add: inv_store_def)
  have keep: "e \<in> set (allJobs (cleanupOldJobs s))"
    if "e \<in> set (allJobs s)" "\<not> terminal (status (heap s ! snd e))" for e
  proof -
    have "e \<notin> set (drop 50 (completed_entries s))"
      using that(2) in_set_dropD [of e 50 "completed_entries s"]
      by (auto simp: completed_entries_set)
    with that(1) show ?thesis
      by (simp add: cleanupOldJobs_allJobs dropped_key [OF d])
  qed
  have sub: "set (allJobs (cleanupOldJobs s)) \<subseteq> set (allJobs s)"
    by (auto simp: cleanupOldJobs_allJobs)
  have "distinct (map fst (allJobs (cleanupOldJobs s)))"
    using d by (simp add: cleanupOldJobs_allJobs distinct_map_filter)
  moreover have "\<forall>e \<in> set (allJobs (cleanupOldJobs s)).
      snd e < length (heap (cleanupOldJobs s)) \<and> fst e = job_id (heap (cleanupOldJobs s) ! snd e)"
    using assms sub by (auto simp: inv_store_def cleanupOldJobs_fields)
  moreover have "\<forall>r < length (heap (cleanupOldJobs s)). \<not> terminal (status (heap (cleanupOldJobs s) ! r)) \<longrightarrow>
      (job_id (heap (cleanupOldJobs s) ! r), r) \<in> set (allJobs (cleanupOldJobs s))"
    using assms keep by (auto simp: inv_store_def cleanupOldJobs_fields)
  ultimately show ?thesis by (simp add: inv_store_def)
qed

lemma frame_ok_cleanupOldJobs: "frame_ok (cleanupOldJobs s) f = frame_ok s f"
  by (cases f) (simp_all add: started_def cleanupOldJobs_fields)

lemma inv_frames_cleanupOldJobs: "inv_frames (cleanupOldJobs s) = inv_frames s"
  by (simp add: inv_frames_def started_def cleanupOldJobs_fields frame_ok_cleanupOldJobs
      split: list.splits)

lemma cleanupOldJobs_inv_weak: "scheduler_inv_weak s \<Longrightarrow> scheduler_inv_weak (cleanupOldJobs s)"
  by (simp add: scheduler_inv_weak_def cleanupOldJobs_store inv_frames_cleanupOldJobs)
    (simp add: inv_alloc_def inv_queue_def inv_times_def started_def cleanupOldJobs_fields)

lemma after_webhook_eq:
  "after_webhook r p outcome inflight resp now s =
     processNextJob now (cleanupOldJobs (delivered r p outcome inflight resp s))"
  by (simp add: after_webhook_def delivered_def Let_def)

lemma delivered_fields:
  "heap (delivered r p outcome inflight resp s) = heap s"
  "jobQueue (delivered r p outcome inflight resp s) = jobQueue s"
  "jobIdCounter (delivered r p outcome inflight resp s) = jobIdCounter s"
  "allJobs (delivered r p outcome inflight resp s) = allJobs s"
  "frames (delivered r p outcome inflight resp s) = remove1 (AwaitWebhook r p outcome inflight) (frames s)"
  "isProcessing (delivered r p outcome inflight resp s) = False"
  "currentJob (delivered r p outcome inflight resp s) = None"
  "fetches (delivered r p outcome inflight resp s) = fetches s"
  "stats (delivered r p outcome inflight resp s) = stats s"
  "length (promises (delivered r p outcome inflight resp s)) = length (promises s)"
  "q \<noteq> p \<Longrightarrow> promises (delivered r p outcome inflight resp s) ! q = promises s ! q"
  by (simp_all add: delivered_def Let_def sendWebhookNotification_response_def settle_promise_def
      split: settle.splits fetch_result.splits)

lemma delivered_inv_weak:
  assumes "scheduler_inv s" "AwaitWebhook r p outcome inflight \<in> set (frames s)"
  shows "scheduler_inv_weak (delivered r p outcome inflight resp s)"
proof -
  from assms(1) have a: "inv_alloc s" and qu: "inv_queue s" and fr: "inv_frames s"
    and ti: "inv_times s" and st: "inv_store s"
    by (simp_all add: scheduler_inv_def scheduler_inv_weak_def)
  let ?s = "delivered r p outcome inflight resp s"
  note f = delivered_fields
  from fr assms(2) have fs: "frames s = [AwaitWebhook r p outcome inflight]" by (rule sole_frame)
  with fr have p: "p = r" and sr: "Suc r = started s"
    and below: "\<forall>q < started s. terminal (status (heap s ! q))"
    by (simp_all add: inv_frames_def)
  have st': "started ?s = started s"
    by (simp add: started_def f)
  have "inv_alloc ?s"
    using a by (simp add: inv_alloc_def f)
  moreover have "inv_queue ?s"
    unfolding inv_queue_def st'
    using qu p sr by (auto simp: inv_queue_def f)
  moreover have "inv_frames ?s"
    using below by (simp add: inv_frames_def f fs st')
  moreover have "inv_times ?s"
    using ti by (simp add: inv_times_def f)
  moreover have "inv_store ?s"
    using st by (simp add: inv_store_def f)
  ultimately show ?thesis by (simp add: scheduler_inv_weak_def)
qed

lemma after_webhook_inv:
  "scheduler_inv s \<Longrightarrow> AwaitWebhook r p outcome inflight \<in> set (frames s) \<Longrightarrow>
   scheduler_inv (after_webhook r p outcome inflight resp now s)"
  by (simp add: after_webhook_eq processNextJob_inv cleanupOldJobs_inv_weak delivered_inv_weak)

lemma aborted_inv_weak:
  assumes "scheduler_inv s" "AwaitProcess r p \<in> set (frames s)"
  shows "scheduler_inv_weak (aborted r p now s)"
proof -
  from assms(1) have a: "inv_alloc s" and qu: "inv_queue s" and fr: "inv_frames s"
    and ti: "inv_times s" and st: "inv_store s"
    by (simp_all add: scheduler_inv_def scheduler_inv_weak_def)
  let ?s = "aborted r p now s"
  note f = aborted_fields
  note j = finished_job_fields
  from fr assms(2) have fs: "frames s = [AwaitProcess r p]" by (rule sole_frame)
  with fr have p: "p = r" and sr: "Suc r = started s" and pr: "status (heap s ! r) = Processing"
    and below: "\<forall>q < r. terminal (status (heap s ! q))"
    by (simp_all add: inv_frames_def)
  from sr have r: "r < length (heap s)" by (auto simp: started_def)
  have st': "started ?s = started s"
    by (simp add: started_def f)
  have "inv_alloc ?s"
    using a r by (auto simp: inv_alloc_def f j nth_list_update)
  moreover have "inv_queue ?s"
    unfolding inv_queue_def st'
    using qu r sr pr by (auto simp: inv_queue_def f j nth_list_update)
  moreover have "inv_frames ?s"
    using below r sr [symmetric]
    by (auto simp: inv_frames_def f fs st' j nth_list_update less_Suc_eq)
  moreover have "inv_times ?s"
    using ti r pr by (auto simp: inv_times_def f j nth_list_update)
  moreover have "inv_store ?s"
    using st r by (auto simp: inv_store_def f j nth_list_update)
  ultimately show ?thesis by (simp add: scheduler_inv_weak_def)
qed

lemma after_process_inv_all:
  assumes "scheduler_inv s" "AwaitProcess r p \<in> set (frames s)"
  shows "scheduler_inv (after_process r p outcome now later s)"
proof (cases "outcome = RejectsNullish")
  case True
  with assms show ?thesis
    by (simp add: after_process_nullish processNextJob_inv cleanupOldJobs_inv_weak aborted_inv_weak)
next
  case False
  with assms show ?thesis by (rule after_process_inv)
qed

lemma step_inv: "scheduler_inv s \<Longrightarrow> scheduler_inv (step s e)"
  by (cases e) (simp_all add: queueJob_inv after_process_inv_all after_webhook_inv)

lemma run_snoc: "run (es @ [e]) = step (run es) e"
  by (simp add: run_def)

lemma run_inv: "scheduler_inv (run es)"
  by (induction es rule: rev_induct) (simp_all add: run_snoc step_inv, simp add: run_def scheduler_inv_init)


section \<open>One job at a time\<close>

lemma processing_is_current:
  assumes "scheduler_inv s" "r < length (heap s)" "status (heap s ! r) = Processing"
  shows "frames s = [AwaitProcess r r]" "currentJob s = Some r" "isProcessing s"
proof -
  from assms(1) have qu: "inv_queue s" and fr: "inv_frames s"
    by (simp_all add: scheduler_inv_def scheduler_inv_weak_def)
  from qu assms(2,3) have lt: "r < started s"
    by (auto simp: inv_queue_def)
  have nt: "\<not> terminal (status (heap s ! r))"
    using assms(3) by (simp add: terminal_def)
  show "frames s = [AwaitProcess r r]"
  proof (cases "frames s")
    case Nil
    with fr lt nt show ?thesis by (auto simp: inv_frames_def)
  next
    case (Cons f rest)
    with fr have rest: "rest = []" and ok: "frame_ok s f"
      by (auto simp: inv_frames_def split: list.splits)
    show ?thesis
    proof (cases f)
      case (AwaitProcess r' p')
      with ok lt nt have "r' = r" "p' = r"
        by (auto simp: less_Suc_eq simp flip: less_Suc_eq_le dest!: sym [of "Suc r'"])
      with Cons rest AwaitProcess show ?thesis by simp
    next
      case (AwaitWebhook r' p' outcome inflight)
      with ok lt nt show ?thesis by auto
    qed
  qed
  with fr show "currentJob s = Some r" "isProcessing s"
    by (simp_all add: inv_frames_def)
qed

text \<open>
  Claim C1. In every state that the scheduler reaches, at most one job has the status
  \<open>Processing\<close>: two job objects that are both processing are the same object, and no two
  distinct entries of \<^verbatim>\<open>allJobs\<close> are both processing. The reason is the guard: a
  processing job is the job of the only suspended invocation of \<^verbatim>\<open>processNextJob\<close>, it is
  \<^verbatim>\<open>currentJob\<close>, and \<^verbatim>\<open>isProcessing\<close> is set.
\<close>

theorem at_most_one_processing:
  "(\<forall>r1 r2. r1 < length (heap (run es)) \<and> r2 < length (heap (run es)) \<and>
       status (heap (run es) ! r1) = Processing \<and> status (heap (run es) ! r2) = Processing
       \<longrightarrow> r1 = r2) \<and>
   (\<forall>e1 \<in> set (allJobs (run es)). \<forall>e2 \<in> set (allJobs (run es)).
       e1 \<noteq> e2 \<longrightarrow>
       \<not> (status (heap (run es) ! snd e1) = Processing \<and> status (heap (run es) ! snd e2) = Processing)) \<and>
   (\<forall>r < length (heap (run es)). status (heap (run es) ! r) = Processing \<longrightarrow>
       isProcessing (run es) \<and> currentJob (run es) = Some r \<and> frames (run es) = [AwaitProcess r r]) \<and>
   length (frames (run es)) \<le> 1"
proof -
  let ?s = "run es"
  have i: "scheduler_inv ?s" by (rule run_inv)
  then have st: "inv_store ?s" and fr: "inv_frames ?s"
    by (simp_all add: scheduler_inv_def scheduler_inv_weak_def)
  have one: "r1 = r2"
    if "r1 < length (heap ?s)" "r2 < length (heap ?s)"
      "status (heap ?s ! r1) = Processing" "status (heap ?s ! r2) = Processing" for r1 r2
    using processing_is_current(1) [OF i that(1,3)] processing_is_current(1) [OF i that(2,4)]
    by simp
  have two: "e1 = e2"
    if "e1 \<in> set (allJobs ?s)" "e2 \<in> set (allJobs ?s)"
      "status (heap ?s ! snd e1) = Processing" "status (heap ?s ! snd e2) = Processing" for e1 e2
  proof -
    from st that(1,2) have b: "snd e1 < length (heap ?s)" "snd e2 < length (heap ?s)"
      and k: "fst e1 = job_id (heap ?s ! snd e1)" "fst e2 = job_id (heap ?s ! snd e2)"
      by (simp_all add: inv_store_def)
    from one [OF b that(3,4)] k show ?thesis
      by (simp add: prod_eq_iff)
  qed
  have three: "length (frames ?s) \<le> 1"
    using fr by (auto simp: inv_frames_def split: list.splits)
  from one two three processing_is_current [OF i] show ?thesis
    by blast
qed

theorem at_most_one_processing_witness:
  "status (heap (run (take 2 example_events)) ! 0) = Processing \<and>
   status (heap (run (take 2 example_events)) ! 1) \<noteq> Processing"
proof -
  have p: "status (heap (run (take 2 example_events)) ! 0) = Processing"
    by code_simp
  have l: "0 < length (heap (run (take 2 example_events)))" "1 < length (heap (run (take 2 example_events)))"
    by code_simp+
  from at_most_one_processing [of "take 2 example_events"]
  have "\<forall>r1 r2. r1 < length (heap (run (take 2 example_events))) \<and>
      r2 < length (heap (run (take 2 example_events))) \<and>
      status (heap (run (take 2 example_events)) ! r1) = Processing \<and>
      status (heap (run (take 2 example_events)) ! r2) = Processing \<longrightarrow> r1 = r2"
    by (rule conjunct1)
  with p l have "status (heap (run (take 2 example_events)) ! 1) \<noteq> Processing"
    by (metis zero_neq_one)
  with p show ?thesis by simp
qed

section \<open>Timestamps of finished jobs\<close>

lemma scheduler_inv_parts:
  assumes "scheduler_inv s"
  shows "inv_alloc s" "inv_queue s" "inv_frames s" "inv_times s" "inv_store s"
  using assms by (simp_all add: scheduler_inv_def scheduler_inv_weak_def)

lemma delivered_completed_entries:
  "completed_entries (delivered r p outcome inflight resp s) = completed_entries s"
  by (simp add: completed_entries_def delivered_fields)

text \<open>
  Claim C10. In every state that the scheduler reaches, a job whose status is
  \<open>Completed\<close> or \<open>Failed\<close> has both \<^verbatim>\<open>startedAt\<close> and \<^verbatim>\<open>completedAt\<close> set. So every entry
  that \<^verbatim>\<open>cleanupOldJobs\<close> ranks has a \<^verbatim>\<open>completedAt\<close>: in the reached state, and in the
  states \<open>delivered \<dots>\<close> and \<open>aborted \<dots>\<close> in which the \<^verbatim>\<open>finally\<close> block calls the trimmer,
  after the notification and after a rejection with \<^verbatim>\<open>null\<close> or \<^verbatim>\<open>undefined\<close>.
\<close>

theorem terminal_jobs_have_times:
  "(\<forall>r < length (heap (run es)). terminal (status (heap (run es) ! r)) \<longrightarrow>
      startedAt (heap (run es) ! r) \<noteq> None \<and> completedAt (heap (run es) ! r) \<noteq> None) \<and>
   (\<forall>e \<in> set (completed_entries (run es)). completedAt (heap (run es) ! snd e) \<noteq> None) \<and>
   (\<forall>e \<in> set (completed_entries (delivered r p outcome inflight resp (run es))).
      completedAt (heap (delivered r p outcome inflight resp (run es)) ! snd e) \<noteq> None) \<and>
   (\<forall>e \<in> set (completed_entries (aborted r p now (run es))).
      completedAt (heap (aborted r p now (run es)) ! snd e) \<noteq> None)"
proof -
  let ?s = "run es"
  have i: "scheduler_inv ?s" by (rule run_inv)
  note ti = scheduler_inv_parts(4) [OF i] and st = scheduler_inv_parts(5) [OF i]
  have a: "startedAt (heap ?s ! q) \<noteq> None \<and> completedAt (heap ?s ! q) \<noteq> None"
    if "q < length (heap ?s)" "terminal (status (heap ?s ! q))" for q
    using ti that by (auto simp: inv_times_def terminal_def)
  have b: "completedAt (heap ?s ! snd e) \<noteq> None" if "e \<in> set (completed_entries ?s)" for e
  proof -
    from that have "e \<in> set (allJobs ?s)" and t: "terminal (status (heap ?s ! snd e))"
      by (simp_all add: completed_entries_set)
    with st have "snd e < length (heap ?s)" by (simp add: inv_store_def)
    with a t show ?thesis by blast
  qed
  have c: "completedAt (heap (aborted r p now ?s) ! snd e) \<noteq> None"
    if "e \<in> set (completed_entries (aborted r p now ?s))" for e
  proof (cases "snd e = r \<and> r < length (heap ?s)")
    case True
    then show ?thesis by (simp add: aborted_fields finished_job_fields)
  next
    case False
    then have same: "heap (aborted r p now ?s) ! snd e = heap ?s ! snd e"
      by (cases "r < length (heap ?s)") (auto simp: aborted_fields not_less list_update_beyond)
    from that have "e \<in> set (allJobs ?s)" "terminal (status (heap ?s ! snd e))"
      by (simp_all add: completed_entries_set aborted_fields(5) same)
    then have "e \<in> set (completed_entries ?s)"
      by (simp add: completed_entries_set)
    with b show ?thesis by (simp add: same)
  qed
  from a b c show ?thesis
    by (simp add: delivered_completed_entries delivered_fields)
qed

theorem terminal_jobs_have_times_witness:
  "terminal (status (heap (run example_events) ! 0)) \<and>
   startedAt (heap (run example_events) ! 0) \<noteq> None \<and>
   completedAt (heap (run example_events) ! 0) \<noteq> None"
proof -
  have l: "0 < length (heap (run example_events))"
    and t: "terminal (status (heap (run example_events) ! 0))"
    by code_simp+
  from terminal_jobs_have_times [of example_events] l t
  have "startedAt (heap (run example_events) ! 0) \<noteq> None \<and>
      completedAt (heap (run example_events) ! 0) \<noteq> None"
    by blast
  with t show ?thesis by simp
qed

section \<open>First in, first out\<close>

lemma ids_list_update:
  assumes "r < length hp \<longrightarrow> job_id j = job_id (hp ! r)"
  shows "map job_id (hp[r := j]) = map job_id hp"
proof (cases "r < length hp")
  case True
  with assms have "map job_id (hp[r := j]) = (map job_id hp)[r := map job_id hp ! r]"
    by (simp add: map_update)
  then show ?thesis by simp
next
  case False
  then show ?thesis by (simp only: list_update_beyond not_less)
qed

lemma console_enqueued:
  "console (enqueued opts now1 now2 s) = console s @
     [LogCreated (fst (generateJobId now1 (jobIdCounter s)))
        (folder (last (heap (enqueued opts now1 now2 s)))),
      LogQueued (fst (generateJobId now1 (jobIdCounter s))) (Suc (length (jobQueue s)))]"
  by (simp add: enqueued_def createJob_eq Let_def)

lemma console_after_process:
  assumes "outcome \<noteq> RejectsNullish"
  shows "queued_ids (console (after_process r p outcome now later s)) = queued_ids (console s)"
  "started_ids (console (after_process r p outcome now later s)) = started_ids (console s)"
  using assms
  by (simp_all add: after_process_def sendWebhookNotification_request_def Let_def queued_ids_def
      started_ids_def split: settle.splits)

lemma console_delivered:
  "queued_ids (console (delivered r p outcome inflight resp s)) = queued_ids (console s)"
  "started_ids (console (delivered r p outcome inflight resp s)) = started_ids (console s)"
  by (simp_all add: delivered_def sendWebhookNotification_response_def settle_promise_def Let_def
      queued_ids_def started_ids_def split: settle.splits fetch_result.splits)

lemma processNextJob_console:
  assumes "scheduler_inv_weak s" "inv_console s"
  shows "inv_console (processNextJob now s)"
proof (cases "isProcessing s \<or> jobQueue s = []")
  case True
  with assms show ?thesis by (simp add: processNextJob_idle)
next
  case False
  then obtain e q where eq: "jobQueue s = e # q" and idle: "\<not> isProcessing s"
    by (cases "jobQueue s") auto
  from assms(1) have qu: "inv_queue s" by (simp add: scheduler_inv_weak_def)
  note h = queue_head [OF qu eq]
  let ?s = "processNextJob now s"
  note s' = processNextJob_start [OF idle eq, of now]
  have ids: "map job_id (heap ?s) = map job_id (heap s)"
    by (simp add: s' ids_list_update)
  have st': "started ?s = Suc (started s)"
    using h(4) by (simp add: s' started_def)
  have c: "console ?s = console s @ [LogStarting (job_id (heap s ! started s)) (recordingsTotal (heap s ! started s)),
      LogQueueLength (length q)]"
    by (simp add: s' h(1))
  from assms(2) h(2) show ?thesis
    unfolding inv_console_def ids st' c
    by (simp add: inv_console_def queued_ids_def started_ids_def take_Suc_conv_app_nth)
qed

lemma enqueued_console:
  assumes "scheduler_inv_weak s" "inv_console s"
  shows "inv_console (enqueued opts now1 now2 s)"
proof -
  from assms(1) have qu: "inv_queue s" by (simp add: scheduler_inv_weak_def)
  then have ql: "length (jobQueue s) \<le> length (heap s)" by (simp add: inv_queue_def)
  let ?s = "enqueued opts now1 now2 s"
  have ids: "map job_id (heap ?s) = map job_id (heap s) @ [fst (generateJobId now1 (jobIdCounter s))]"
    by (subst enqueued_heap) (simp add: enqueued_fields)
  have st': "started ?s = started s"
    using ql by (subst started_def, subst enqueued_heap) (simp add: started_def enqueued_fields)
  have "started s \<le> length (heap s)" by (simp add: started_def)
  with assms(2) show ?thesis
    unfolding inv_console_def ids st' console_enqueued
    by (simp add: inv_console_def queued_ids_def started_ids_def)
qed

lemma step_console:
  assumes "scheduler_inv s" "inv_console s"
  shows "inv_console (step s e)"
proof (cases e)
  case (QueueJob opts now1 now2 now3)
  from assms have "scheduler_inv_weak s" by (simp add: scheduler_inv_def)
  then show ?thesis
    using assms(2) QueueJob
    by (simp add: queueJob_eq processNextJob_console enqueued_console enqueued_inv_weak)
next
  case (ProcessSettled r p outcome now later)
  show ?thesis
  proof (cases "AwaitProcess r p \<in> set (frames s)")
    case False
    with assms(2) ProcessSettled show ?thesis by simp
  next
    case True
    show ?thesis
    proof (cases "outcome = RejectsNullish")
      case nullish: True
      let ?d = "aborted r p now s"
      have w: "scheduler_inv_weak (cleanupOldJobs ?d)"
        using assms(1) True by (simp add: cleanupOldJobs_inv_weak aborted_inv_weak)
      have "map job_id (heap ?d) = map job_id (heap s)"
        by (simp add: aborted_fields ids_list_update finished_job_fields)
      then have "inv_console ?d"
        using assms(2) by (simp add: inv_console_def aborted_fields started_def)
      then have "inv_console (cleanupOldJobs ?d)"
        by (simp add: inv_console_def cleanupOldJobs_fields started_def)
      with w True nullish ProcessSettled show ?thesis
        by (simp add: after_process_nullish processNextJob_console)
    next
      case message: False
      have "map job_id (heap (after_process r p outcome now later s)) = map job_id (heap s)"
        by (simp add: after_process_fields [OF message] ids_list_update finished_job_fields)
      moreover have "started (after_process r p outcome now later s) = started s"
        by (simp add: started_def after_process_fields [OF message])
      ultimately show ?thesis
        using assms(2) ProcessSettled by (simp add: inv_console_def console_after_process [OF message])
    qed
  qed
next
  case (WebhookSettled r p outcome inflight resp now)
  show ?thesis
  proof (cases "AwaitWebhook r p outcome inflight \<in> set (frames s)")
    case False
    with assms(2) WebhookSettled show ?thesis by simp
  next
    case True
    let ?d = "delivered r p outcome inflight resp s"
    have w: "scheduler_inv_weak (cleanupOldJobs ?d)"
      using assms(1) True by (simp add: cleanupOldJobs_inv_weak delivered_inv_weak)
    have "inv_console ?d"
      using assms(2) by (simp add: inv_console_def console_delivered delivered_fields started_def)
    then have "inv_console (cleanupOldJobs ?d)"
      by (simp add: inv_console_def cleanupOldJobs_fields started_def)
    with w True WebhookSettled show ?thesis
      by (simp add: after_webhook_eq processNextJob_console)
  qed
qed

lemma run_console: "inv_console (run es)"
proof (induction es rule: rev_induct)
  case Nil
  show ?case by (simp add: run_def init_def inv_console_def queued_ids_def started_ids_def started_def)
next
  case (snoc e es)
  then show ?case by (simp add: run_snoc step_console run_inv)
qed

text \<open>
  Claim C2. Jobs become \<open>Processing\<close> in the order of their submission. The heap lists the
  jobs in the order in which \<^verbatim>\<open>queueJob\<close> created them. In every reached state, a job that
  has left the status \<open>Queued\<close> has only finished jobs before it, so no later job is
  started while an earlier one is pending or active; the pending queue is exactly the
  still queued jobs in the order of submission; and on the console the identifiers of
  the \<^verbatim>\<open>Starting job\<close> lines are an initial segment of the identifiers of the
  \<^verbatim>\<open>queued\<close> lines, which are pairwise different.
\<close>

theorem jobs_start_in_submission_order:
  "(\<forall>a b. a < b \<and> b < length (heap (run es)) \<and> status (heap (run es) ! b) \<noteq> Queued
      \<longrightarrow> terminal (status (heap (run es) ! a))) \<and>
   map job (jobQueue (run es)) = [started (run es)..<length (heap (run es))] \<and>
   (\<forall>r < length (heap (run es)). status (heap (run es) ! r) = Queued \<longleftrightarrow> started (run es) \<le> r) \<and>
   queued_ids (console (run es)) = map job_id (heap (run es)) \<and>
   started_ids (console (run es)) = take (started (run es)) (queued_ids (console (run es))) \<and>
   prefix (started_ids (console (run es))) (queued_ids (console (run es))) \<and>
   distinct (queued_ids (console (run es)))"
proof -
  let ?s = "run es"
  have i: "scheduler_inv ?s" by (rule run_inv)
  note qu = scheduler_inv_parts(2) [OF i] and fr = scheduler_inv_parts(3) [OF i]
    and al = scheduler_inv_parts(1) [OF i]
  have c: "inv_console ?s" by (rule run_console)
  have order: "terminal (status (heap ?s ! a))"
    if "a < b" "b < length (heap ?s)" "status (heap ?s ! b) \<noteq> Queued" for a b
  proof -
    from qu that(2,3) have b: "b < started ?s" by (auto simp: inv_queue_def)
    show ?thesis
    proof (cases "frames ?s")
      case Nil
      with fr that(1) b show ?thesis by (simp add: inv_frames_def)
    next
      case (Cons f rest)
      with fr have ok: "frame_ok ?s f"
        by (auto simp: inv_frames_def split: list.splits)
      with that(1) b show ?thesis
        by (cases f) auto
    qed
  qed
  have q: "map job (jobQueue ?s) = [started ?s..<length (heap ?s)]"
  proof -
    from qu have "jobQueue ?s = map (\<lambda>r. \<lparr>job = r, promise = r\<rparr>) [started ?s..<length (heap ?s)]"
      by (simp add: inv_queue_def)
    then have "map job (jobQueue ?s) = map job (map (\<lambda>r. \<lparr>job = r, promise = r\<rparr>) [started ?s..<length (heap ?s)])"
      by simp
    then show ?thesis by (simp add: comp_def)
  qed
  have d: "distinct (map job_id (heap ?s))"
  proof -
    have "a = b" if "a < length (heap ?s)" "b < length (heap ?s)"
      "job_id (heap ?s ! a) = job_id (heap ?s ! b)" for a b
    proof -
      from al that(1,2)
      have "counter_text (job_id (heap ?s ! a)) = padStart 3 (CHR ''0'') (String_nat (Suc a))"
        and "counter_text (job_id (heap ?s ! b)) = padStart 3 (CHR ''0'') (String_nat (Suc b))"
        by (simp_all add: inv_alloc_def)
      with that(3) show ?thesis by (simp add: counter_text_inj)
    qed
    then show ?thesis by (auto simp: distinct_conv_nth)
  qed
  from c have "started_ids (console ?s) = take (started ?s) (queued_ids (console ?s))"
    and "queued_ids (console ?s) = map job_id (heap ?s)"
    by (simp_all add: inv_console_def)
  moreover from this have "prefix (started_ids (console ?s)) (queued_ids (console ?s))"
    by (simp add: take_is_prefix)
  moreover from qu have "\<forall>r < length (heap ?s). status (heap ?s ! r) = Queued \<longleftrightarrow> started ?s \<le> r"
    by (simp add: inv_queue_def)
  moreover from order have "\<forall>a b. a < b \<and> b < length (heap ?s) \<and> status (heap ?s ! b) \<noteq> Queued
      \<longrightarrow> terminal (status (heap ?s ! a))"
    by blast
  ultimately show ?thesis using q d by (simp add: take_is_prefix)
qed

theorem jobs_start_in_submission_order_witness:
  "1 < length (heap (run example_events)) \<and>
   status (heap (run example_events) ! 1) \<noteq> Queued \<and>
   terminal (status (heap (run example_events) ! 0))"
proof -
  have l: "1 < length (heap (run example_events))"
    and n: "status (heap (run example_events) ! 1) \<noteq> Queued"
    by code_simp+
  from jobs_start_in_submission_order [of example_events]
  have "\<forall>a b. a < b \<and> b < length (heap (run example_events)) \<and>
      status (heap (run example_events) ! b) \<noteq> Queued
      \<longrightarrow> terminal (status (heap (run example_events) ! a))"
    by (rule conjunct1)
  with l n have "terminal (status (heap (run example_events) ! 0))"
    by (metis zero_less_one)
  with l n show ?thesis by simp
qed

section \<open>Identifiers: unique, and ordered within limits\<close>

lemma distinct_job_ids:
  assumes "scheduler_inv s"
  shows "distinct (map job_id (heap s))"
proof -
  from assms have al: "inv_alloc s" by (simp add: scheduler_inv_def scheduler_inv_weak_def)
  have "a = b" if "a < length (heap s)" "b < length (heap s)"
    "job_id (heap s ! a) = job_id (heap s ! b)" for a b
  proof -
    from al that(1,2)
    have "counter_text (job_id (heap s ! a)) = padStart 3 (CHR ''0'') (String_nat (Suc a))"
      and "counter_text (job_id (heap s ! b)) = padStart 3 (CHR ''0'') (String_nat (Suc b))"
      by (simp_all add: inv_alloc_def)
    with that(3) show ?thesis by (simp add: counter_text_inj)
  qed
  then show ?thesis by (auto simp: distinct_conv_nth)
qed

lemma of_char_digit_char: "d < 10 \<Longrightarrow> of_char (digit_char d) = (48 + d :: nat)"
proof -
  assume "d < 10"
  then have "d = 0 \<or> d = 1 \<or> d = 2 \<or> d = 3 \<or> d = 4 \<or> d = 5 \<or> d = 6 \<or> d = 7 \<or> d = 8 \<or> d = 9"
    by arith
  then show ?thesis
    by (elim disjE) (simp_all add: digit_char_def)
qed

lemma digit_char_less: "a < b \<Longrightarrow> b < 10 \<Longrightarrow> digit_char a < digit_char b"
  by (simp add: less_char_def of_char_digit_char)

lemma counter_text_3:
  assumes "n < 1000"
  shows "padStart 3 (CHR ''0'') (String_nat n) =
    [digit_char (n div 100), digit_char (n div 10 mod 10), digit_char (n mod 10)]"
proof -
  have z: "digit_char 0 = CHR ''0''" by (simp add: digit_char_def)
  consider "n < 10" | "10 \<le> n" "n < 100" | "100 \<le> n"
    by linarith
  then show ?thesis
  proof cases
    case 1
    then show ?thesis
      by (simp add: String_nat.simps [of n] padStart_def z numeral_3_eq_3)
  next
    case 2
    then have "n div 10 < 10" "n div 100 = 0" by simp_all
    with 2 show ?thesis
      by (simp add: String_nat.simps [of n] String_nat.simps [of "n div 10"] padStart_def z)
  next
    case 3
    with assms have "\<not> n div 10 < 10" "n div 10 div 10 < 10" "n div 10 div 10 = n div 100"
      by (simp_all add: div_mult2_eq [symmetric])
    with 3 show ?thesis
      by (simp add: String_nat.simps [of n] String_nat.simps [of "n div 10"]
          String_nat.simps [of "n div 100"] padStart_def)
  qed
qed

lemma div_mod_less:
  assumes "(a::nat) < b"
  shows "a div k < b div k \<or> a div k = b div k \<and> a mod k < b mod k"
proof -
  from assms have "a div k \<le> b div k" by (simp add: div_le_mono)
  moreover have "a mod k < b mod k" if "a div k = b div k"
    using that assms div_mult_mod_eq [of a k] div_mult_mod_eq [of b k]
    by (metis add_less_cancel_left)
  ultimately show ?thesis by (auto simp: le_less)
qed

lemma digits_order:
  assumes "n < m"
  shows "n div 100 < m div 100 \<or> n div 100 = m div 100 \<and>
    (n div 10 mod 10 < m div 10 mod 10 \<or> n div 10 mod 10 = m div 10 mod 10 \<and> n mod 10 < (m::nat) mod 10)"
proof -
  have h: "x div 10 div 10 = x div 100" for x :: nat
    by (simp add: div_mult2_eq [symmetric])
  from div_mod_less [OF assms, of 10] show ?thesis
  proof
    assume "n div 10 < m div 10"
    from div_mod_less [OF this, of 10] show ?thesis
      by (auto simp: h)
  next
    assume "n div 10 = m div 10 \<and> n mod 10 < m mod 10"
    then show ?thesis by (metis h)
  qed
qed

lemma counter_text_less:
  assumes "n < m" "m < 1000"
  shows "padStart 3 (CHR ''0'') (String_nat n) < padStart 3 (CHR ''0'') (String_nat m)"
proof -
  from assms have n: "n < 1000" by simp
  have b: "n div 100 < 10" "m div 100 < 10" "n div 10 mod 10 < 10" "m div 10 mod 10 < 10"
    "n mod 10 < 10" "m mod 10 < 10"
    using assms by simp_all
  from digits_order [OF assms(1)] show ?thesis
    unfolding counter_text_3 [OF n] counter_text_3 [OF assms(2)]
    using b by (elim disjE conjE) (simp_all add: digit_char_less)
qed

lemma append_less_same: "xs @ ys < xs @ zs \<longleftrightarrow> ys < (zs :: char list)"
  by (induction xs) simp_all

lemma append_less_length: "length a = length b \<Longrightarrow> a < b \<Longrightarrow> a @ x < b @ (y :: char list)"
  by (induction a b rule: list_induct2) auto

lemma String_nat_less:
  "n < m \<Longrightarrow> length (String_nat n) = length (String_nat m) \<Longrightarrow> String_nat n < String_nat m"
proof (induction m arbitrary: n rule: String_nat.induct)
  case (1 m)
  show ?case
  proof (cases "m < 10")
    case True
    with "1.prems"(1) have "n < 10" by simp
    with True "1.prems"(1) show ?thesis
      by (simp add: String_nat.simps [of n] String_nat.simps [of m] digit_char_less)
  next
    case False
    then have m: "String_nat m = String_nat (m div 10) @ [digit_char (m mod 10)]"
      by (simp add: String_nat.simps [of m])
    have "\<not> n < 10"
    proof
      assume "n < 10"
      then have "length (String_nat n) = 1" by (simp add: String_nat.simps [of n])
      with "1.prems"(2) m String_nat_not_Nil [of "m div 10"] show False by simp
    qed
    then have n: "String_nat n = String_nat (n div 10) @ [digit_char (n mod 10)]"
      by (simp add: String_nat.simps [of n])
    from "1.prems"(2) have len: "length (String_nat (n div 10)) = length (String_nat (m div 10))"
      by (simp add: m n)
    from div_mod_less [OF "1.prems"(1), of 10] show ?thesis
    proof
      assume "n div 10 < m div 10"
      from "1.IH" [OF False this len] len show ?thesis
        unfolding m n by (intro append_less_length)
    next
      assume "n div 10 = m div 10 \<and> n mod 10 < m mod 10"
      then show ?thesis
        unfolding m n by (simp add: append_less_same digit_char_less)
    qed
  qed
qed

lemma String_nat_long: "1000 \<le> n \<Longrightarrow> 4 \<le> length (String_nat n)"
proof -
  assume "1000 \<le> n"
  then have "\<not> n < 10" "\<not> n div 10 < 10" "\<not> n div 10 div 10 < 10" by simp_all
  then have "String_nat n = String_nat (n div 10 div 10 div 10) @
      [digit_char (n div 10 div 10 mod 10), digit_char (n div 10 mod 10), digit_char (n mod 10)]"
    by (simp add: String_nat.simps [of n] String_nat.simps [of "n div 10"]
        String_nat.simps [of "n div 10 div 10"])
  with String_nat_not_Nil [of "n div 10 div 10 div 10"] show ?thesis
    by (cases "String_nat (n div 10 div 10 div 10)") simp_all
qed

lemma counter_text_same_length_less:
  assumes "n < m"
    and "length (padStart 3 (CHR ''0'') (String_nat n)) = length (padStart 3 (CHR ''0'') (String_nat m))"
  shows "padStart 3 (CHR ''0'') (String_nat n) < padStart 3 (CHR ''0'') (String_nat m)"
proof (cases "m < 1000")
  case True
  with assms(1) show ?thesis by (rule counter_text_less)
next
  case False
  then have lm: "4 \<le> length (String_nat m)" by (simp add: String_nat_long)
  then have pm: "padStart 3 (CHR ''0'') (String_nat m) = String_nat m"
    by (simp add: padStart_def)
  have "\<not> n < 1000"
  proof
    assume "n < 1000"
    then have "length (padStart 3 (CHR ''0'') (String_nat n)) = 3"
      by (simp add: counter_text_3)
    with assms(2) pm lm show False by simp
  qed
  then have "4 \<le> length (String_nat n)" by (simp add: String_nat_long)
  then have pn: "padStart 3 (CHR ''0'') (String_nat n) = String_nat n"
    by (simp add: padStart_def)
  from assms show ?thesis
    unfolding pm pn by (rule String_nat_less)
qed

text \<open>
  Claim C9, as amended. Identifiers made with different values of the counter are
  different, whatever the clock reads; the counter grows by one with every identifier;
  so in every state that the scheduler reaches the identifiers of all jobs are pairwise
  different. The identifier of the earlier job compares less than that of the later job
  (as JavaScript compares strings, by code unit) when the two timestamps have the same
  length and either the later timestamp is greater, or the timestamps are equal and the
  two counters are printed with the same number of digits: three digits up to the
  counter 999, and the digits of the number from 1000 on. So within one second the order
  can fail only when the number of digits grows between the two identifiers.
\<close>

theorem job_ids_unique_and_ordered:
  "(fst (generateJobId now1 c1) = fst (generateJobId now2 c2) \<longrightarrow> c1 = c2) \<and>
   snd (generateJobId now1 c1) = Suc c1 \<and>
   (c1 < c2 \<and> length (timestamp now1) = length (timestamp now2) \<and>
      (timestamp now1 < timestamp now2 \<or>
       timestamp now1 = timestamp now2 \<and>
       length (padStart 3 (CHR ''0'') (String_nat (Suc c1))) =
         length (padStart 3 (CHR ''0'') (String_nat (Suc c2))))
      \<longrightarrow> fst (generateJobId now1 c1) < fst (generateJobId now2 c2)) \<and>
   (c2 < 999 \<longrightarrow> length (padStart 3 (CHR ''0'') (String_nat (Suc c2))) = 3) \<and>
   (999 \<le> c2 \<longrightarrow> padStart 3 (CHR ''0'') (String_nat (Suc c2)) = String_nat (Suc c2)) \<and>
   distinct (map job_id (heap (run es)))"
proof -
  have ordered: "fst (generateJobId now1 c1) < fst (generateJobId now2 c2)"
    if "c1 < c2" "length (timestamp now1) = length (timestamp now2)"
      "timestamp now1 < timestamp now2 \<or>
       timestamp now1 = timestamp now2 \<and>
       length (padStart 3 (CHR ''0'') (String_nat (Suc c1))) =
         length (padStart 3 (CHR ''0'') (String_nat (Suc c2)))"
  proof -
    from that(3) show ?thesis
    proof
      assume "timestamp now1 < timestamp now2"
      with that(2) have "timestamp now1 @ ''_'' @ padStart 3 (CHR ''0'') (String_nat (Suc c1))
          < timestamp now2 @ ''_'' @ padStart 3 (CHR ''0'') (String_nat (Suc c2))"
        by (rule append_less_length)
      then show ?thesis
        by (simp add: generateJobId_def)
    next
      assume a: "timestamp now1 = timestamp now2 \<and>
       length (padStart 3 (CHR ''0'') (String_nat (Suc c1))) =
         length (padStart 3 (CHR ''0'') (String_nat (Suc c2)))"
      with that(1) have "padStart 3 (CHR ''0'') (String_nat (Suc c1)) < padStart 3 (CHR ''0'') (String_nat (Suc c2))"
        by (intro counter_text_same_length_less) simp_all
      with a show ?thesis
        by (simp add: generateJobId_def append_less_same)
    qed
  qed
  have three: "length (padStart 3 (CHR ''0'') (String_nat (Suc c2))) = 3" if "c2 < 999"
    using that by (simp add: counter_text_3)
  have more: "padStart 3 (CHR ''0'') (String_nat (Suc c2)) = String_nat (Suc c2)" if "999 \<le> c2"
    using that String_nat_long [of "Suc c2"] by (simp add: padStart_def)
  have "distinct (map job_id (heap (run es)))"
    by (rule distinct_job_ids) (rule run_inv)
  with ordered three more generateJobId_inj [of now1 c1 now2 c2] show ?thesis
    by (simp add: generateJobId_def)
qed

theorem job_ids_unique_and_ordered_witness:
  "fst (generateJobId at_1430 0) \<noteq> fst (generateJobId at_1430 1) \<and>
   fst (generateJobId at_1430 0) < fst (generateJobId at_1430 1) \<and>
   fst (generateJobId at_1430 1000) < fst (generateJobId at_1430 1001)"
proof -
  have l: "length (padStart 3 (CHR ''0'') (String_nat (Suc 0))) =
      length (padStart 3 (CHR ''0'') (String_nat (Suc 1)))"
    "length (padStart 3 (CHR ''0'') (String_nat (Suc 1000))) =
      length (padStart 3 (CHR ''0'') (String_nat (Suc 1001)))"
    by code_simp+
  from job_ids_unique_and_ordered [of at_1430 0 at_1430 1 "[]"] l(1)
  have a: "fst (generateJobId at_1430 0) \<noteq> fst (generateJobId at_1430 1) \<and>
   fst (generateJobId at_1430 0) < fst (generateJobId at_1430 1)"
    by simp
  from job_ids_unique_and_ordered [of at_1430 1000 at_1430 1001 "[]"] l(2)
  have "fst (generateJobId at_1430 1000) < fst (generateJobId at_1430 1001)"
    by simp
  with a show ?thesis by simp
qed

text \<open>
  The order fails when the counter passes from three to four digits within one second:
  the identifier with counter 1000 compares less than the one with counter 999.
\<close>

theorem job_ids_order_counterexample:
  "fst (generateJobId at_1430 999) < fst (generateJobId at_1430 998)"
  by code_simp

section \<open>The outcome of the callback\<close>

lemma counts_match_sum: "counts_match j \<Longrightarrow> recordingsCompleted j + recordingsFailed j = length (results j)"
  by (simp add: counts_match_def sum_length_filter_compl)

lemma counts_match_finished: "counts_match j \<Longrightarrow> counts_match (finished_job j outcome now)"
  by (cases outcome) (simp_all add: counts_match_def finished_job_def)

lemma set_heap_update: "j \<in> set (hp[r := x]) \<Longrightarrow> j = x \<or> j \<in> set hp"
  using set_update_subset_insert [of hp r x] by auto

lemma processNextJob_counts:
  assumes "\<forall>j \<in> set (heap s). counts_match j"
  shows "\<forall>j \<in> set (heap (processNextJob now s)). counts_match j"
proof (cases "isProcessing s \<or> jobQueue s = []")
  case True
  with assms show ?thesis by (simp add: processNextJob_idle)
next
  case False
  then obtain e q where eq: "jobQueue s = e # q" and idle: "\<not> isProcessing s"
    by (cases "jobQueue s") auto
  show ?thesis
  proof
    fix j assume "j \<in> set (heap (processNextJob now s))"
    then have "j = (heap s ! job e)\<lparr>status := Processing, startedAt := Some now\<rparr> \<or> j \<in> set (heap s)"
      by (simp add: processNextJob_start [OF idle eq]) (erule set_heap_update)
    moreover have "counts_match ((heap s ! job e)\<lparr>status := Processing, startedAt := Some now\<rparr>)"
      if "j \<notin> set (heap s)"
    proof -
      from that \<open>j \<in> set (heap (processNextJob now s))\<close> have "job e < length (heap s)"
        by (cases "job e < length (heap s)")
          (simp_all add: processNextJob_start [OF idle eq] not_less list_update_beyond)
      with assms have "counts_match (heap s ! job e)" by simp
      then show ?thesis by (simp add: counts_match_def)
    qed
    ultimately show "counts_match j" using assms by auto
  qed
qed

lemma step_counts:
  assumes "\<forall>j \<in> set (heap s). counts_match j"
  shows "\<forall>j \<in> set (heap (step s e)). counts_match j"
proof (cases e)
  case (QueueJob opts now1 now2 now3)
  have "\<forall>j \<in> set (heap (enqueued opts now1 now2 s)). counts_match j"
    using assms by (simp add: enqueued_def createJob_eq Let_def counts_match_def)
  then show ?thesis
    unfolding QueueJob step.simps queueJob_eq snd_conv by (rule processNextJob_counts)
next
  case (ProcessSettled r p outcome now later)
  have u: "\<forall>j \<in> set ((heap s)[r := finished_job (heap s ! r) outcome now]). counts_match j"
  proof (cases "r < length (heap s)")
    case True
    with assms have "counts_match (finished_job (heap s ! r) outcome now)"
      by (simp add: counts_match_finished)
    with assms show ?thesis
      by (auto dest!: set_heap_update)
  next
    case False
    with assms show ?thesis
      by (simp add: not_less list_update_beyond)
  qed
  show ?thesis
  proof (cases "outcome = RejectsNullish")
    case True
    from u True have "\<forall>j \<in> set (heap (cleanupOldJobs (aborted r p now s))). counts_match j"
      by (simp add: cleanupOldJobs_fields aborted_fields)
    then have "\<forall>j \<in> set (heap (after_process r p RejectsNullish now later s)). counts_match j"
      unfolding after_process_nullish by (rule processNextJob_counts)
    with assms True show ?thesis
      by (simp add: ProcessSettled)
  next
    case False
    with assms u show ?thesis
      by (simp add: ProcessSettled after_process_fields)
  qed
next
  case (WebhookSettled r p outcome inflight resp now)
  have "\<forall>j \<in> set (heap (cleanupOldJobs (delivered r p outcome inflight resp s))). counts_match j"
    using assms by (simp add: cleanupOldJobs_fields delivered_fields)
  then have "\<forall>j \<in> set (heap (after_webhook r p outcome inflight resp now s)). counts_match j"
    unfolding after_webhook_eq by (rule processNextJob_counts)
  with assms show ?thesis
    by (simp add: WebhookSettled)
qed

lemma run_counts: "\<forall>j \<in> set (heap (run es)). counts_match j"
proof (induction es rule: rev_induct)
  case Nil
  show ?case by (simp add: run_def init_def)
next
  case (snoc e es)
  then show ?case unfolding run_snoc by (rule step_counts)
qed

lemma awaiting_process:
  assumes "scheduler_inv s" "AwaitProcess r p \<in> set (frames s)"
  shows "frames s = [AwaitProcess r p]" "p = r" "r < length (heap s)" "Suc r = started s"
    "status (heap s ! r) = Processing" "promises s ! r = Pending" "isProcessing s"
    "currentJob s = Some r"
proof -
  from assms(1) have fr: "inv_frames s"
    by (simp add: scheduler_inv_def scheduler_inv_weak_def)
  from fr assms(2) show fs: "frames s = [AwaitProcess r p]" by (rule sole_frame)
  with fr show "p = r" and sr: "Suc r = started s" and "status (heap s ! r) = Processing"
    and "promises s ! r = Pending" and "isProcessing s" and "currentJob s = Some r"
    by (simp_all add: inv_frames_def)
  from sr show "r < length (heap s)" by (auto simp: started_def)
qed

text \<open>
  Claim C4, as amended. When the callback of the suspended invocation resolves with a
  list of task results, the job gets the status \<open>Completed\<close>, \<^verbatim>\<open>completedAt\<close>, the list as
  \<^verbatim>\<open>results\<close>, \<^verbatim>\<open>recordingsCompleted\<close> the number of results with \<^verbatim>\<open>success\<close> and
  \<^verbatim>\<open>recordingsFailed\<close> the number of the others; \<^verbatim>\<open>recordingsTotal\<close> stays what
  \<^verbatim>\<open>createJob\<close> took from the options. In every reached state and for every job the two
  counters add up to the length of \<^verbatim>\<open>results\<close>; they add up to \<^verbatim>\<open>recordingsTotal\<close> when the
  callback returned that many results, which the scheduler does not check.
\<close>

theorem callback_resolution_completes_job:
  "(AwaitProcess r p \<in> set (frames (run es)) \<longrightarrow>
      status (heap (step (run es) (ProcessSettled r p (Resolves res) now later)) ! r) = Completed \<and>
      completedAt (heap (step (run es) (ProcessSettled r p (Resolves res) now later)) ! r) = Some now \<and>
      results (heap (step (run es) (ProcessSettled r p (Resolves res) now later)) ! r) = res \<and>
      recordingsCompleted (heap (step (run es) (ProcessSettled r p (Resolves res) now later)) ! r)
        = length (filter success res) \<and>
      recordingsFailed (heap (step (run es) (ProcessSettled r p (Resolves res) now later)) ! r)
        = length (filter (\<lambda>x. \<not> success x) res) \<and>
      recordingsTotal (heap (step (run es) (ProcessSettled r p (Resolves res) now later)) ! r)
        = recordingsTotal (heap (run es) ! r)) \<and>
   (\<forall>q < length (heap (run es)).
      recordingsCompleted (heap (run es) ! q) + recordingsFailed (heap (run es) ! q)
        = length (results (heap (run es) ! q)) \<and>
      (length (results (heap (run es) ! q)) = recordingsTotal (heap (run es) ! q) \<longrightarrow>
         recordingsCompleted (heap (run es) ! q) + recordingsFailed (heap (run es) ! q)
           = recordingsTotal (heap (run es) ! q)))"
proof -
  let ?s = "run es"
  have i: "scheduler_inv ?s" by (rule run_inv)
  have a: "status (heap (step ?s (ProcessSettled r p (Resolves res) now later)) ! r) = Completed \<and>
      completedAt (heap (step ?s (ProcessSettled r p (Resolves res) now later)) ! r) = Some now \<and>
      results (heap (step ?s (ProcessSettled r p (Resolves res) now later)) ! r) = res \<and>
      recordingsCompleted (heap (step ?s (ProcessSettled r p (Resolves res) now later)) ! r)
        = length (filter success res) \<and>
      recordingsFailed (heap (step ?s (ProcessSettled r p (Resolves res) now later)) ! r)
        = length (filter (\<lambda>x. \<not> success x) res) \<and>
      recordingsTotal (heap (step ?s (ProcessSettled r p (Resolves res) now later)) ! r)
        = recordingsTotal (heap ?s ! r)"
    if "AwaitProcess r p \<in> set (frames ?s)"
    using that awaiting_process(3) [OF i that]
    by (simp add: after_process_fields finished_job_def)
  have b: "recordingsCompleted (heap ?s ! q) + recordingsFailed (heap ?s ! q)
      = length (results (heap ?s ! q))" if "q < length (heap ?s)" for q
    using run_counts [of es] that by (simp add: counts_match_sum)
  from a b show ?thesis by simp
qed

theorem callback_resolution_completes_job_witness:
  "AwaitProcess 0 0 \<in> set (frames (run (take 2 example_events))) \<and>
   status (heap (step (run (take 2 example_events)) (ProcessSettled 0 0 (Resolves [ok_result]) at_1430 at_1430)) ! 0)
     = Completed \<and>
   recordingsCompleted
     (heap (step (run (take 2 example_events)) (ProcessSettled 0 0 (Resolves [ok_result]) at_1430 at_1430)) ! 0) = 1"
proof -
  have f: "AwaitProcess 0 0 \<in> set (frames (run (take 2 example_events)))"
    by code_simp
  have l: "length (filter success [ok_result]) = 1"
    by code_simp
  from callback_resolution_completes_job [of 0 0 "take 2 example_events" "[ok_result]" at_1430 at_1430] f l
  show ?thesis by simp
qed

text \<open>
  A job announced with \<^verbatim>\<open>recordingsCount: 2\<close> whose callback resolves with one result is
  completed with one result and counters that add up to one.
\<close>

theorem results_length_counterexample:
  "status (heap (run (take 3 example_events)) ! 0) = Completed \<and>
   results (heap (run (take 3 example_events)) ! 0) \<noteq> [] \<and>
   recordingsCompleted (heap (run (take 3 example_events)) ! 0)
     + recordingsFailed (heap (run (take 3 example_events)) ! 0)
     \<noteq> recordingsTotal (heap (run (take 3 example_events)) ! 0) \<and>
   length (results (heap (run (take 3 example_events)) ! 0))
     \<noteq> recordingsTotal (heap (run (take 3 example_events)) ! 0)"
  by code_simp

section \<open>A failed job does not block the queue\<close>

lemma awaiting_webhook:
  assumes "scheduler_inv s" "AwaitWebhook r p outcome inflight \<in> set (frames s)"
  shows "frames s = [AwaitWebhook r p outcome inflight]" "p = r" "r < length (heap s)"
    "Suc r = started s" "promises s ! r = Pending" "isProcessing s" "currentJob s = Some r"
    "outcome_matches outcome (heap s ! r)" "\<forall>q < started s. terminal (status (heap s ! q))"
proof -
  from assms(1) have fr: "inv_frames s"
    by (simp add: scheduler_inv_def scheduler_inv_weak_def)
  from fr assms(2) show fs: "frames s = [AwaitWebhook r p outcome inflight]" by (rule sole_frame)
  with fr show "p = r" and sr: "Suc r = started s" and "promises s ! r = Pending"
    and "isProcessing s" and "currentJob s = Some r" and "outcome_matches outcome (heap s ! r)"
    and "\<forall>q < started s. terminal (status (heap s ! q))"
    by (simp_all add: inv_frames_def)
  from sr show "r < length (heap s)" by (auto simp: started_def)
qed

lemma delivered_promise:
  assumes "p < length (promises s)" "promises s ! p = Pending"
  shows "promises (delivered r p (Rejects m) inflight resp s) ! p = Rejected m"
    "promises (delivered r p (Resolves res) inflight resp s) ! p =
       Fulfilled \<lparr>o_success = True, o_jobId = job_id (heap s ! r), o_folder = folder (heap s ! r),
         o_total = recordingsTotal (heap s ! r), o_completed = recordingsCompleted (heap s ! r),
         o_failed = recordingsFailed (heap s ! r), o_results = res\<rparr>"
  using assms
  by (simp_all add: delivered_def Let_def sendWebhookNotification_response_def settle_promise_def
      split: fetch_result.splits)

text \<open>What the \<^verbatim>\<open>finally\<close> block leaves behind, with an empty and with a non-empty queue.\<close>

lemma after_webhook_idle:
  assumes "scheduler_inv s" "AwaitWebhook r p outcome inflight \<in> set (frames s)" "jobQueue s = []"
  shows "after_webhook r p outcome inflight resp now s = cleanupOldJobs (delivered r p outcome inflight resp s)"
  by (simp add: after_webhook_eq processNextJob_idle cleanupOldJobs_fields delivered_fields assms(3))

lemma after_webhook_next:
  assumes "scheduler_inv s" "AwaitWebhook r p outcome inflight \<in> set (frames s)" "jobQueue s \<noteq> []"
  shows "jobQueue (after_webhook r p outcome inflight resp now s) = tl (jobQueue s)"
    "currentJob (after_webhook r p outcome inflight resp now s) = Some (job (hd (jobQueue s)))"
    "isProcessing (after_webhook r p outcome inflight resp now s)"
    "frames (after_webhook r p outcome inflight resp now s) =
       [AwaitProcess (job (hd (jobQueue s))) (promise (hd (jobQueue s)))]"
    "heap (after_webhook r p outcome inflight resp now s) =
       (heap s)[job (hd (jobQueue s)) :=
          (heap s ! job (hd (jobQueue s)))\<lparr>status := Processing, startedAt := Some now\<rparr>]"
    "promises (after_webhook r p outcome inflight resp now s) =
       promises (delivered r p outcome inflight resp s)"
    "job (hd (jobQueue s)) = Suc r \<and> Suc r < length (heap s) \<and> resp = resp \<and> now = now"
proof -
  let ?c = "cleanupOldJobs (delivered r p outcome inflight resp s)"
  from assms(3) obtain e q where eq: "jobQueue s = e # q" by (cases "jobQueue s") auto
  then have eq': "jobQueue ?c = e # q" by (simp add: cleanupOldJobs_fields delivered_fields)
  have idle: "\<not> isProcessing ?c" by (simp add: cleanupOldJobs_fields delivered_fields)
  note fs = awaiting_webhook(1) [OF assms(1,2)]
  note s' = processNextJob_start [OF idle eq', of now]
  from assms(1) have "inv_queue s" by (simp add: scheduler_inv_def scheduler_inv_weak_def)
  note h = queue_head [OF this eq]
  show "jobQueue (after_webhook r p outcome inflight resp now s) = tl (jobQueue s)"
    and "currentJob (after_webhook r p outcome inflight resp now s) = Some (job (hd (jobQueue s)))"
    and "isProcessing (after_webhook r p outcome inflight resp now s)"
    and "frames (after_webhook r p outcome inflight resp now s) =
       [AwaitProcess (job (hd (jobQueue s))) (promise (hd (jobQueue s)))]"
    and "heap (after_webhook r p outcome inflight resp now s) =
       (heap s)[job (hd (jobQueue s)) :=
          (heap s ! job (hd (jobQueue s)))\<lparr>status := Processing, startedAt := Some now\<rparr>]"
    and "promises (after_webhook r p outcome inflight resp now s) =
       promises (delivered r p outcome inflight resp s)"
    by (simp_all add: after_webhook_eq s' eq cleanupOldJobs_fields delivered_fields fs)
  from h(1,2) awaiting_webhook(4) [OF assms(1,2)]
  show "job (hd (jobQueue s)) = Suc r \<and> Suc r < length (heap s) \<and> resp = resp \<and> now = now"
    by (simp add: eq)
qed

text \<open>
  A rejection with a value that can be read. The job gets the status \<open>Failed\<close>, as
  \<^verbatim>\<open>error\<close> the \<^verbatim>\<open>message\<close> of the value, and \<^verbatim>\<open>completedAt\<close>. When the notification has
  settled, in whatever way, the promise that \<^verbatim>\<open>queueJob\<close> returned for the job, which was
  pending, is rejected with the value, the job is as it was, and the drain loop goes on:
  with an empty queue the guard is cleared, otherwise the head of the queue is taken and
  marked \<open>Processing\<close>. The promise of a job has the job's address as its index, since
  \<^verbatim>\<open>queueJob\<close> makes both.
\<close>

lemma rejection_with_value:
  fixes es r p m now tn resp later
  defines "s \<equiv> run es"
  defines "s1 \<equiv> step s (ProcessSettled r p (Rejects m) now tn)"
  defines "s2 \<equiv> step s1 (WebhookSettled r p (Rejects m) (truthy (webhookUrl (heap s ! r))) resp later)"
  assumes "AwaitProcess r p \<in> set (frames s)"
  shows "status (heap s1 ! r) = Failed \<and> error (heap s1 ! r) = m \<and>
     completedAt (heap s1 ! r) = Some now \<and>
     p = r \<and> fst (queueJob opts ta tb tc s) = length (heap s) \<and>
     promises s ! p = Pending \<and> promises s1 ! p = Pending \<and> promises s2 ! p = Rejected m \<and>
     heap s2 ! r = heap s1 ! r \<and>
     (if jobQueue s = []
      then \<not> isProcessing s2 \<and> currentJob s2 = None \<and> frames s2 = []
      else jobQueue s2 = tl (jobQueue s) \<and> currentJob s2 = Some (job (hd (jobQueue s))) \<and>
           status (heap s2 ! job (hd (jobQueue s))) = Processing \<and>
           frames s2 = [AwaitProcess (job (hd (jobQueue s))) (promise (hd (jobQueue s)))])"
proof -
  have i: "scheduler_inv s" unfolding s_def by (rule run_inv)
  note a = awaiting_process [OF i assms(4)]
  let ?fl = "truthy (webhookUrl (heap s ! r))"
  have s1: "s1 = after_process r p (Rejects m) now tn s"
    using assms(4) by (simp add: s1_def)
  have i1: "scheduler_inv s1"
    unfolding s1 by (rule after_process_inv [OF i assms(4)]) simp
  have f1: "AwaitWebhook r p (Rejects m) ?fl \<in> set (frames s1)"
    by (simp add: s1 after_process_fields a(1))
  have s2: "s2 = after_webhook r p (Rejects m) ?fl resp later s1"
    using f1 by (simp add: s2_def)
  have q1: "jobQueue s1 = jobQueue s" by (simp add: s1 after_process_fields)
  have h1: "heap s1 ! r = finished_job (heap s ! r) (Rejects m) now"
    using a(3) by (simp add: s1 after_process_fields)
  from i have "inv_alloc s" by (simp add: scheduler_inv_def scheduler_inv_weak_def)
  then have pl: "length (promises s) = length (heap s)" by (simp add: inv_alloc_def)
  have p1: "promises s1 = promises s" by (simp add: s1 after_process_fields)
  have pd: "promises (delivered r p (Rejects m) ?fl resp s1) ! p = Rejected m"
    using a(2,3,6) pl by (intro delivered_promise) (simp_all add: p1)
  have one: "status (heap s1 ! r) = Failed \<and> error (heap s1 ! r) = m \<and>
     completedAt (heap s1 ! r) = Some now"
    by (simp add: h1 finished_job_def)
  have two: "p = r \<and> fst (queueJob opts ta tb tc s) = length (heap s) \<and>
     promises s ! p = Pending \<and> promises s1 ! p = Pending"
    using a(2,6) pl by (simp add: queueJob_eq p1)
  show ?thesis
  proof (cases "jobQueue s = []")
    case True
    with q1 have e1: "jobQueue s1 = []" by simp
    have "s2 = cleanupOldJobs (delivered r p (Rejects m) ?fl resp s1)"
      unfolding s2 using i1 f1 e1 by (rule after_webhook_idle)
    then have "\<not> isProcessing s2 \<and> currentJob s2 = None \<and> frames s2 = [] \<and>
        promises s2 ! p = Rejected m \<and> heap s2 ! r = heap s1 ! r"
      using pd awaiting_webhook(1) [OF i1 f1]
      by (simp add: cleanupOldJobs_fields delivered_fields)
    with one two True show ?thesis by auto
  next
    case False
    with q1 have n1: "jobQueue s1 \<noteq> []" by simp
    note n = after_webhook_next [OF i1 f1 n1, of resp later, folded s2]
    from n(7) have "status (heap s2 ! job (hd (jobQueue s))) = Processing \<and> heap s2 ! r = heap s1 ! r"
      by (simp add: n(5) q1)
    with n(1,2,4,6) pd one two False show ?thesis
      by (auto simp: q1)
  qed
qed

text \<open>A job that is not finished has no \<^verbatim>\<open>error\<close>.\<close>

lemma processNextJob_errors:
  assumes "scheduler_inv_weak s"
    and "\<forall>r < length (heap s). \<not> terminal (status (heap s ! r)) \<longrightarrow> error (heap s ! r) = None"
  shows "\<forall>r < length (heap (processNextJob now s)).
    \<not> terminal (status (heap (processNextJob now s) ! r)) \<longrightarrow> error (heap (processNextJob now s) ! r) = None"
proof (cases "isProcessing s \<or> jobQueue s = []")
  case True
  with assms(2) show ?thesis by (simp add: processNextJob_idle)
next
  case False
  then obtain e q where eq: "jobQueue s = e # q" and idle: "\<not> isProcessing s"
    by (cases "jobQueue s") auto
  from assms(1) have qu: "inv_queue s" by (simp add: scheduler_inv_weak_def)
  note h = queue_head [OF qu eq]
  from qu h(2) have "status (heap s ! started s) = Queued" by (simp add: inv_queue_def)
  with assms(2) h(2) have "error (heap s ! started s) = None" by (simp add: terminal_def)
  with assms(2) h(2) show ?thesis
    by (auto simp: processNextJob_start [OF idle eq] h(1) nth_list_update)
qed

lemma step_errors:
  assumes "scheduler_inv s"
    and "\<forall>r < length (heap s). \<not> terminal (status (heap s ! r)) \<longrightarrow> error (heap s ! r) = None"
  shows "\<forall>r < length (heap (step s e)).
    \<not> terminal (status (heap (step s e) ! r)) \<longrightarrow> error (heap (step s e) ! r) = None"
proof (cases e)
  case (QueueJob opts now1 now2 now3)
  let ?q = "enqueued opts now1 now2 s"
  from assms(1) have w: "scheduler_inv_weak ?q"
    by (simp add: scheduler_inv_def enqueued_inv_weak)
  have "error (last (heap ?q)) = None"
    by (simp add: enqueued_def createJob_eq Let_def)
  with assms(2) have "\<forall>r < length (heap ?q). \<not> terminal (status (heap ?q ! r)) \<longrightarrow> error (heap ?q ! r) = None"
    by (subst (1 2 3) enqueued_heap) (auto simp: nth_append less_Suc_eq)
  with w show ?thesis
    unfolding QueueJob step.simps queueJob_eq snd_conv by (rule processNextJob_errors)
next
  case (ProcessSettled r p outcome now later)
  show ?thesis
  proof (cases "AwaitProcess r p \<in> set (frames s)")
    case False
    with assms(2) ProcessSettled show ?thesis by simp
  next
    case True
    have u: "\<forall>q < length ((heap s)[r := finished_job (heap s ! r) outcome now]).
        \<not> terminal (status ((heap s)[r := finished_job (heap s ! r) outcome now] ! q)) \<longrightarrow>
        error ((heap s)[r := finished_job (heap s ! r) outcome now] ! q) = None"
      using assms(2) awaiting_process(3) [OF assms(1) True]
      by (auto simp: nth_list_update finished_job_fields)
    show ?thesis
    proof (cases "outcome = RejectsNullish")
      case nullish: True
      let ?c = "cleanupOldJobs (aborted r p now s)"
      have w: "scheduler_inv_weak ?c"
        using assms(1) True by (simp add: cleanupOldJobs_inv_weak aborted_inv_weak)
      from u nullish have "\<forall>q < length (heap ?c). \<not> terminal (status (heap ?c ! q)) \<longrightarrow> error (heap ?c ! q) = None"
        by (simp add: cleanupOldJobs_fields aborted_fields)
      with w have "\<forall>q < length (heap (processNextJob later ?c)).
          \<not> terminal (status (heap (processNextJob later ?c) ! q)) \<longrightarrow>
          error (heap (processNextJob later ?c) ! q) = None"
        by (rule processNextJob_errors)
      with True nullish ProcessSettled show ?thesis
        by (simp add: after_process_nullish)
    next
      case False
      with u True ProcessSettled show ?thesis
        by (simp add: after_process_fields)
    qed
  qed
next
  case (WebhookSettled r p outcome inflight resp now)
  show ?thesis
  proof (cases "AwaitWebhook r p outcome inflight \<in> set (frames s)")
    case False
    with assms(2) WebhookSettled show ?thesis by simp
  next
    case True
    let ?c = "cleanupOldJobs (delivered r p outcome inflight resp s)"
    have w: "scheduler_inv_weak ?c"
      using assms(1) True by (simp add: cleanupOldJobs_inv_weak delivered_inv_weak)
    from assms(2) have "\<forall>q < length (heap ?c). \<not> terminal (status (heap ?c ! q)) \<longrightarrow> error (heap ?c ! q) = None"
      by (simp add: cleanupOldJobs_fields delivered_fields)
    with w have "\<forall>q < length (heap (processNextJob now ?c)).
        \<not> terminal (status (heap (processNextJob now ?c) ! q)) \<longrightarrow>
        error (heap (processNextJob now ?c) ! q) = None"
      by (rule processNextJob_errors)
    with True WebhookSettled show ?thesis
      by (simp add: after_webhook_eq)
  qed
qed

lemma run_errors:
  "\<forall>r < length (heap (run es)). \<not> terminal (status (heap (run es) ! r)) \<longrightarrow> error (heap (run es) ! r) = None"
proof (induction es rule: rev_induct)
  case Nil
  show ?case by (simp add: run_def init_def)
next
  case (snoc e es)
  show ?case unfolding run_snoc by (rule step_errors [OF run_inv snoc])
qed

text \<open>
  A finished job whose promise is pending while no invocation holds the job stays so:
  only the invocation that took a job from the queue has its \<^verbatim>\<open>resolve\<close> and \<^verbatim>\<open>reject\<close>.
\<close>

lemma processNextJob_orphaned:
  assumes "scheduler_inv_weak s" "orphaned r s"
  shows "orphaned r (processNextJob now s)"
proof (cases "isProcessing s \<or> jobQueue s = []")
  case True
  with assms(2) show ?thesis by (simp add: processNextJob_idle)
next
  case False
  then obtain e q where eq: "jobQueue s = e # q" and idle: "\<not> isProcessing s"
    by (cases "jobQueue s") auto
  from assms(1) have qu: "inv_queue s" by (simp add: scheduler_inv_weak_def)
  note h = queue_head [OF qu eq]
  have "started (processNextJob now s) = Suc (started s)"
    using h(4) by (simp add: processNextJob_start [OF idle eq] started_def)
  with assms(2) show ?thesis
    by (simp add: orphaned_def processNextJob_start [OF idle eq])
qed

lemma step_orphaned:
  assumes "scheduler_inv s" "orphaned r s"
  shows "orphaned r (step s e)"
proof (cases e)
  case (QueueJob opts now1 now2 now3)
  let ?q = "enqueued opts now1 now2 s"
  from assms(1) have w: "scheduler_inv_weak ?q"
    by (simp add: scheduler_inv_def enqueued_inv_weak)
  from assms(1) have "length (jobQueue s) \<le> length (heap s)"
    by (simp add: scheduler_inv_def scheduler_inv_weak_def inv_queue_def)
  then have "started ?q = started s"
    by (subst started_def, subst enqueued_heap) (simp add: started_def enqueued_fields)
  with assms(2) have "orphaned r ?q"
    by (simp add: orphaned_def enqueued_fields nth_append)
  with w show ?thesis
    unfolding QueueJob step.simps queueJob_eq snd_conv by (rule processNextJob_orphaned)
next
  case (ProcessSettled r' p' outcome now later)
  show ?thesis
  proof (cases "AwaitProcess r' p' \<in> set (frames s)")
    case False
    with assms(2) ProcessSettled show ?thesis by simp
  next
    case True
    note a = awaiting_process [OF assms(1) True]
    from assms(2) a(1) have far: "Suc r < started s" by (simp add: orphaned_def)
    show ?thesis
    proof (cases "outcome = RejectsNullish")
      case nullish: True
      let ?c = "cleanupOldJobs (aborted r' p' now s)"
      have w: "scheduler_inv_weak ?c"
        using assms(1) True by (simp add: cleanupOldJobs_inv_weak aborted_inv_weak)
      from assms(2) have "orphaned r ?c"
        by (simp add: orphaned_def started_def cleanupOldJobs_fields aborted_fields a(1))
      with w have "orphaned r (processNextJob later ?c)"
        by (rule processNextJob_orphaned)
      with True nullish ProcessSettled show ?thesis
        by (simp add: after_process_nullish)
    next
      case False
      with assms(2) far True ProcessSettled show ?thesis
        by (simp add: orphaned_def started_def after_process_fields)
    qed
  qed
next
  case (WebhookSettled r' p' outcome inflight resp now)
  show ?thesis
  proof (cases "AwaitWebhook r' p' outcome inflight \<in> set (frames s)")
    case False
    with assms(2) WebhookSettled show ?thesis by simp
  next
    case True
    note aw = awaiting_webhook [OF assms(1) True]
    from assms(2) aw(1) have far: "Suc r < started s" by (simp add: orphaned_def)
    with aw(2,4) have ne: "r \<noteq> p'" by simp
    let ?c = "cleanupOldJobs (delivered r' p' outcome inflight resp s)"
    have w: "scheduler_inv_weak ?c"
      using assms(1) True by (simp add: cleanupOldJobs_inv_weak delivered_inv_weak)
    from assms(2) ne have "orphaned r ?c"
      by (simp add: orphaned_def started_def cleanupOldJobs_fields delivered_fields aw(1))
    with w have "orphaned r (processNextJob now ?c)"
      by (rule processNextJob_orphaned)
    with True WebhookSettled show ?thesis
      by (simp add: after_webhook_eq)
  qed
qed

lemma run_orphaned: "orphaned r (run es) \<Longrightarrow> orphaned r (run (es @ es'))"
proof (induction es' rule: rev_induct)
  case Nil
  then show ?case by simp
next
  case (snoc e es')
  then have "orphaned r (step (run (es @ es')) e)"
    by (intro step_orphaned run_inv) simp
  then show ?case by (simp add: run_snoc flip: append_assoc)
qed

text \<open>What the \<^verbatim>\<open>finally\<close> block does from the state in which it starts.\<close>

lemma finally_idle:
  "jobQueue d = [] \<Longrightarrow> processNextJob now (cleanupOldJobs d) = cleanupOldJobs d"
  by (simp add: processNextJob_idle cleanupOldJobs_fields)

lemma finally_next:
  assumes "\<not> isProcessing d" "jobQueue d = e # q"
  shows "jobQueue (processNextJob now (cleanupOldJobs d)) = q"
    "currentJob (processNextJob now (cleanupOldJobs d)) = Some (job e)"
    "isProcessing (processNextJob now (cleanupOldJobs d))"
    "frames (processNextJob now (cleanupOldJobs d)) = frames d @ [AwaitProcess (job e) (promise e)]"
    "heap (processNextJob now (cleanupOldJobs d)) =
       (heap d)[job e := (heap d ! job e)\<lparr>status := Processing, startedAt := Some now\<rparr>]"
    "promises (processNextJob now (cleanupOldJobs d)) = promises d"
    "stats (processNextJob now (cleanupOldJobs d)) = stats d"
    "fetches (processNextJob now (cleanupOldJobs d)) = fetches d"
proof -
  from assms have "\<not> isProcessing (cleanupOldJobs d)" "jobQueue (cleanupOldJobs d) = e # q"
    by (simp_all add: cleanupOldJobs_fields)
  note s' = processNextJob_start [OF this, of now]
  show "jobQueue (processNextJob now (cleanupOldJobs d)) = q"
    "currentJob (processNextJob now (cleanupOldJobs d)) = Some (job e)"
    "isProcessing (processNextJob now (cleanupOldJobs d))"
    "frames (processNextJob now (cleanupOldJobs d)) = frames d @ [AwaitProcess (job e) (promise e)]"
    "heap (processNextJob now (cleanupOldJobs d)) =
       (heap d)[job e := (heap d ! job e)\<lparr>status := Processing, startedAt := Some now\<rparr>]"
    "promises (processNextJob now (cleanupOldJobs d)) = promises d"
    "stats (processNextJob now (cleanupOldJobs d)) = stats d"
    "fetches (processNextJob now (cleanupOldJobs d)) = fetches d"
    by (simp_all add: s' cleanupOldJobs_fields)
qed

text \<open>
  Claim C5 fails for a callback that rejects with \<^verbatim>\<open>null\<close> or \<^verbatim>\<open>undefined\<close> (or throws
  one of them). The \<^verbatim>\<open>catch\<close> block of \<^verbatim>\<open>processNextJob\<close> sets the status \<open>Failed\<close> and
  \<^verbatim>\<open>completedAt\<close>, and then \<^verbatim>\<open>job.error = error.message\<close> throws. In every reached state in
  which an invocation waits for the callback, that settling leaves the job failed with
  its \<^verbatim>\<open>error\<close> still null, the counters of \<^verbatim>\<open>stats\<close> and the requests as they were, and
  the promise that \<^verbatim>\<open>queueJob\<close> returned for the job pending: \<^verbatim>\<open>reject\<close> is not called, and
  whatever happens afterwards the promise stays pending. Only the \<^verbatim>\<open>finally\<close> block
  runs, so the drain loop does go on: with an empty queue the guard is cleared, otherwise
  the head of the queue is taken and marked \<open>Processing\<close>.
\<close>

theorem nullish_rejection_leaves_promise_pending:
  fixes es r p now later
  defines "s \<equiv> run es"
  defines "s1 \<equiv> step s (ProcessSettled r p RejectsNullish now later)"
  assumes "AwaitProcess r p \<in> set (frames s)"
  shows "status (heap s1 ! r) = Failed \<and> completedAt (heap s1 ! r) = Some now \<and>
     error (heap s1 ! r) = None \<and> stats s1 = stats s \<and> fetches s1 = fetches s \<and>
     p = r \<and> promises s ! p = Pending \<and>
     (\<forall>es'. promises (run (es @ ProcessSettled r p RejectsNullish now later # es')) ! p = Pending) \<and>
     (if jobQueue s = []
      then \<not> isProcessing s1 \<and> currentJob s1 = None \<and> frames s1 = []
      else jobQueue s1 = tl (jobQueue s) \<and> currentJob s1 = Some (job (hd (jobQueue s))) \<and>
           status (heap s1 ! job (hd (jobQueue s))) = Processing \<and>
           frames s1 = [AwaitProcess (job (hd (jobQueue s))) (promise (hd (jobQueue s)))])"
proof -
  have i: "scheduler_inv s" unfolding s_def by (rule run_inv)
  note a = awaiting_process [OF i assms(3)]
  let ?d = "aborted r p now s"
  have s1: "s1 = processNextJob later (cleanupOldJobs ?d)"
    using assms(3) by (simp add: s1_def after_process_nullish)
  have w: "scheduler_inv_weak (cleanupOldJobs ?d)"
    using i assms(3) by (simp add: cleanupOldJobs_inv_weak aborted_inv_weak)
  from run_errors [of es] a(3,5) have e0: "error (heap s ! r) = None"
    by (simp add: s_def terminal_def)
  have hd: "heap ?d ! r = finished_job (heap s ! r) RejectsNullish now"
    using a(3) by (simp add: aborted_fields)
  then have jd: "status (heap ?d ! r) = Failed \<and> completedAt (heap ?d ! r) = Some now \<and>
      error (heap ?d ! r) = None"
    using e0 by (simp add: finished_job_def)
  have "orphaned r (cleanupOldJobs ?d)"
    using a(1,4,6) i
    by (simp add: orphaned_def started_def cleanupOldJobs_fields aborted_fields
        scheduler_inv_def scheduler_inv_weak_def inv_alloc_def)
  with w have "orphaned r s1"
    unfolding s1 by (rule processNextJob_orphaned)
  then have "orphaned r (run (es @ [ProcessSettled r p RejectsNullish now later]))"
    by (simp add: run_snoc s1_def s_def)
  then have "orphaned r (run ((es @ [ProcessSettled r p RejectsNullish now later]) @ es'))" for es'
    by (rule run_orphaned)
  then have never: "\<forall>es'. promises (run (es @ ProcessSettled r p RejectsNullish now later # es')) ! p = Pending"
    by (simp add: orphaned_def a(2))
  have two: "p = r \<and> promises s ! p = Pending"
    using a(2,6) by simp
  show ?thesis
  proof (cases "jobQueue s = []")
    case True
    then have "s1 = cleanupOldJobs ?d"
      unfolding s1 by (intro finally_idle) (simp add: aborted_fields)
    then have "\<not> isProcessing s1 \<and> currentJob s1 = None \<and> frames s1 = [] \<and>
        heap s1 ! r = heap ?d ! r \<and> stats s1 = stats s \<and> fetches s1 = fetches s"
      by (simp add: cleanupOldJobs_fields aborted_fields a(1))
    with jd two never True show ?thesis by auto
  next
    case False
    then obtain e q where eq: "jobQueue s = e # q" by (cases "jobQueue s") auto
    then have eq': "jobQueue ?d = e # q" and idle: "\<not> isProcessing ?d"
      by (simp_all add: aborted_fields)
    note n = finally_next [OF idle eq', of later, folded s1]
    from i have "inv_queue s" by (simp add: scheduler_inv_def scheduler_inv_weak_def)
    note h = queue_head [OF this eq]
    from h(1,2) a(4) have je: "job e = Suc r" "Suc r < length (heap s)" by simp_all
    have "heap s1 ! r = heap ?d ! r \<and> status (heap s1 ! job e) = Processing"
      using je by (simp add: n(5) aborted_fields)
    with n(1,2,4,7,8) jd two never eq show ?thesis
      by (auto simp: aborted_fields a(1))
  qed
qed

theorem nullish_rejection_leaves_promise_pending_witness:
  "AwaitProcess 0 0 \<in> set (frames (run (take 2 example_events))) \<and>
   status (heap (step (run (take 2 example_events)) (ProcessSettled 0 0 RejectsNullish at_1430 at_1430)) ! 0)
     = Failed \<and>
   error (heap (step (run (take 2 example_events)) (ProcessSettled 0 0 RejectsNullish at_1430 at_1430)) ! 0)
     = None \<and>
   promises (run (take 2 example_events @ ProcessSettled 0 0 RejectsNullish at_1430 at_1430 # [])) ! 0
     = Pending \<and>
   jobsFailed (stats (step (run (take 2 example_events)) (ProcessSettled 0 0 RejectsNullish at_1430 at_1430)))
     = 0 \<and>
   status (heap (step (run (take 2 example_events)) (ProcessSettled 0 0 RejectsNullish at_1430 at_1430)) ! 1)
     = Processing"
proof -
  have f: "AwaitProcess 0 0 \<in> set (frames (run (take 2 example_events)))"
    and q: "jobQueue (run (take 2 example_events)) \<noteq> []"
    and j: "job (hd (jobQueue (run (take 2 example_events)))) = 1"
    and z: "jobsFailed (stats (run (take 2 example_events))) = 0"
    by code_simp+
  from nullish_rejection_leaves_promise_pending [where es = "take 2 example_events" and r = 0
      and p = 0 and now = at_1430 and later = at_1430, OF f] f q j z
  show ?thesis by (simp only: if_False simp_thms)
qed

section \<open>One notification for each finished job\<close>

lemma fetches_processNextJob: "fetches (processNextJob now s) = fetches s"
  by (simp add: processNextJob_def Let_def)

lemma fetches_after_process:
  assumes "outcome \<noteq> RejectsNullish"
  shows "fetches (after_process r p outcome now later s) =
     fetches s @ (if truthy (webhookUrl (heap s ! r))
                  then [(the (webhookUrl (heap s ! r)),
                         webhook_payload (finished_job (heap s ! r) outcome now))]
                  else [])"
  using assms
  by (simp add: after_process_def finished_job_def sendWebhookNotification_request_def Let_def
      split: settle.splits)

text \<open>The result of \<^verbatim>\<open>fetch\<close> reaches the console and nothing else.\<close>

lemma sendWebhookNotification_response_eq:
  "sendWebhookNotification_response resp s = s\<lparr>console := console s @ response_lines resp\<rparr>"
  by (simp add: sendWebhookNotification_response_def response_lines_def split: fetch_result.splits)

lemma settle_promise_console:
  "settle_promise p v (s\<lparr>console := c\<rparr>) = (settle_promise p v s)\<lparr>console := c\<rparr>"
  by (simp add: settle_promise_def)

lemma settle_promise_frames: "frames (settle_promise p v s) = frames s"
  by (simp add: settle_promise_def)

lemma settle_promise_pending: "settle_promise p Pending s = s"
  by (simp add: settle_promise_def list_update_same_conv)

lemma delivered_eq:
  "delivered r p outcome inflight resp s =
     (settle_promise p (settlement outcome (heap s ! r)) s)
       \<lparr>currentJob := None, isProcessing := False,
        frames := remove1 (AwaitWebhook r p outcome inflight) (frames s),
        console := console s @ (if inflight then response_lines resp else [])\<rparr>"
proof (cases inflight)
  case True
  then show ?thesis
    by (cases outcome)
      (simp_all add: delivered_def Let_def settlement_def sendWebhookNotification_response_eq
        settle_promise_console settle_promise_frames settle_promise_pending)
next
  case False
  show ?thesis
  proof (cases outcome)
    case RejectsNullish
    with False show ?thesis
      by (simp add: delivered_def Let_def settlement_def settle_promise_pending)
  qed (use False in \<open>simp_all add: delivered_def Let_def settlement_def settle_promise_def\<close>)
qed

lemma delivered_console_only:
  "(delivered r p outcome inflight resp s)\<lparr>console := c\<rparr> =
   (delivered r p outcome inflight resp' s)\<lparr>console := c\<rparr>"
  by (simp add: delivered_eq)

lemma cleanupOldJobs_console: "cleanupOldJobs (s\<lparr>console := c\<rparr>) = (cleanupOldJobs s)\<lparr>console := c\<rparr>"
  by (simp add: cleanupOldJobs_def completed_entries_def Let_def)

lemma processNextJob_console_only:
  "(processNextJob now (s\<lparr>console := c\<rparr>))\<lparr>console := c'\<rparr> = (processNextJob now s)\<lparr>console := c'\<rparr>"
  by (simp add: processNextJob_def Let_def)

lemma processNextJob_console_prefix: "prefix (console s) (console (processNextJob now s))"
  by (simp add: processNextJob_def Let_def)

lemma after_webhook_console_only:
  "(after_webhook r p outcome inflight resp now s)\<lparr>console := []\<rparr> =
   (after_webhook r p outcome inflight resp' now s)\<lparr>console := []\<rparr>"
proof -
  have "(processNextJob now (cleanupOldJobs d))\<lparr>console := []\<rparr> =
      (processNextJob now (cleanupOldJobs (d\<lparr>console := []\<rparr>)))\<lparr>console := []\<rparr>" for d
    by (simp add: cleanupOldJobs_console processNextJob_console_only)
  from this [of "delivered r p outcome inflight resp s"]
    this [of "delivered r p outcome inflight resp' s"]
    delivered_console_only [where r = r and p = p and outcome = outcome and inflight = inflight
      and resp = resp and s = s and c = "[]" and resp' = resp']
  show ?thesis by (simp add: after_webhook_eq)
qed

text \<open>
  The notifier where the claim holds. When the callback settles with a result list or
  with a rejection whose value can be read, that step starts exactly one request when
  the job has a \<^verbatim>\<open>webhookUrl\<close>, carrying the payload of the finished job, and none otherwise,
  where \<^verbatim>\<open>sendWebhookNotification\<close> returns without any effect; no other event starts a
  request. The result of the request, be it a response that is not \<^verbatim>\<open>ok\<close> or a thrown
  error, is written to the console and changes nothing else: the state after the
  notification has settled is the same for any two results but for the console, the job
  is as it was, and its promise is settled by the outcome of the callback.
\<close>

lemma notification_of_settled_job:
  "(AwaitProcess r p \<in> set (frames (run es)) \<and> outcome \<noteq> RejectsNullish \<longrightarrow>
      terminal (status (heap (step (run es) (ProcessSettled r p outcome now tn)) ! r)) \<and>
      fetches (step (run es) (ProcessSettled r p outcome now tn)) =
        fetches (run es) @
          (if truthy (webhookUrl (heap (run es) ! r))
           then [(the (webhookUrl (heap (run es) ! r)),
                  webhook_payload (heap (step (run es) (ProcessSettled r p outcome now tn)) ! r))]
           else [])) \<and>
   fetches (step (run es) (QueueJob opts ta tb tc)) = fetches (run es) \<and>
   fetches (step (run es) (WebhookSettled r p outcome inflight resp later)) = fetches (run es) \<and>
   (\<not> truthy (webhookUrl j) \<longrightarrow> sendWebhookNotification_request j s = (False, s)) \<and>
   (step (run es) (WebhookSettled r p outcome inflight resp later))\<lparr>console := []\<rparr> =
     (step (run es) (WebhookSettled r p outcome inflight resp' later))\<lparr>console := []\<rparr> \<and>
   (sendWebhookNotification_response resp s)\<lparr>console := console s\<rparr> = s \<and>
   console (sendWebhookNotification_response (Response False code txt) s) =
     console s @ [LogWebhookFailed code txt] \<and>
   console (sendWebhookNotification_response (FetchThrew msg) s) = console s @ [LogWebhookError msg] \<and>
   (AwaitWebhook r p outcome True \<in> set (frames (run es)) \<longrightarrow>
      prefix (console (sendWebhookNotification_response resp (run es)))
        (console (step (run es) (WebhookSettled r p outcome True resp later)))) \<and>
   (AwaitWebhook r p outcome inflight \<in> set (frames (run es)) \<longrightarrow>
      heap (step (run es) (WebhookSettled r p outcome inflight resp later)) ! r = heap (run es) ! r \<and>
      promises (step (run es) (WebhookSettled r p outcome inflight resp later)) ! p =
        settlement outcome (heap (run es) ! r))"
proof -
  let ?s = "run es"
  have i: "scheduler_inv ?s" by (rule run_inv)
  have a: "terminal (status (heap (step ?s (ProcessSettled r p outcome now tn)) ! r)) \<and>
      fetches (step ?s (ProcessSettled r p outcome now tn)) =
        fetches ?s @
          (if truthy (webhookUrl (heap ?s ! r))
           then [(the (webhookUrl (heap ?s ! r)),
                  webhook_payload (heap (step ?s (ProcessSettled r p outcome now tn)) ! r))]
           else [])"
    if "AwaitProcess r p \<in> set (frames ?s) \<and> outcome \<noteq> RejectsNullish"
    using that awaiting_process(3) [of ?s r p] i
    by (simp add: fetches_after_process after_process_fields finished_job_fields)
  have b: "fetches (step ?s (QueueJob opts ta tb tc)) = fetches ?s"
    by (simp add: queueJob_eq fetches_processNextJob enqueued_fields)
  have c: "fetches (step ?s (WebhookSettled r p outcome inflight resp later)) = fetches ?s"
    by (simp add: after_webhook_eq fetches_processNextJob cleanupOldJobs_fields delivered_fields)
  have d: "sendWebhookNotification_request j s = (False, s)" if "\<not> truthy (webhookUrl j)"
    using that by (simp add: sendWebhookNotification_request_def)
  have e: "(step ?s (WebhookSettled r p outcome inflight resp later))\<lparr>console := []\<rparr> =
     (step ?s (WebhookSettled r p outcome inflight resp' later))\<lparr>console := []\<rparr>"
    by (simp add: after_webhook_console_only)
  have f: "(sendWebhookNotification_response resp s)\<lparr>console := console s\<rparr> = s"
    by (simp add: sendWebhookNotification_response_def split: fetch_result.splits)
  have f1: "console (sendWebhookNotification_response (Response False code txt) s) =
     console s @ [LogWebhookFailed code txt]"
    and f2: "console (sendWebhookNotification_response (FetchThrew msg) s) =
     console s @ [LogWebhookError msg]"
    by (simp_all add: sendWebhookNotification_response_def)
  have l: "prefix (console (sendWebhookNotification_response resp ?s))
        (console (step ?s (WebhookSettled r p outcome True resp later)))"
    if w: "AwaitWebhook r p outcome True \<in> set (frames ?s)"
  proof -
    have "console (cleanupOldJobs (delivered r p outcome True resp ?s)) =
        console (sendWebhookNotification_response resp ?s)"
      by (simp add: cleanupOldJobs_fields delivered_eq sendWebhookNotification_response_eq)
    with processNextJob_console_prefix [of "cleanupOldJobs (delivered r p outcome True resp ?s)" later]
    show ?thesis using w by (simp add: after_webhook_eq)
  qed
  have g: "heap (step ?s (WebhookSettled r p outcome inflight resp later)) ! r = heap ?s ! r \<and>
      promises (step ?s (WebhookSettled r p outcome inflight resp later)) ! p =
        settlement outcome (heap ?s ! r)"
    if w: "AwaitWebhook r p outcome inflight \<in> set (frames ?s)"
  proof -
    note aw = awaiting_webhook [OF i w]
    from i have "inv_alloc ?s" by (simp add: scheduler_inv_def scheduler_inv_weak_def)
    then have pl: "length (promises ?s) = length (heap ?s)" by (simp add: inv_alloc_def)
    have pd: "promises (delivered r p outcome inflight resp ?s) ! p = settlement outcome (heap ?s ! r)"
      using aw(2,3,5,8) pl by (cases outcome) (simp_all add: delivered_promise settlement_def)
    show ?thesis
    proof (cases "jobQueue ?s = []")
      case True
      from after_webhook_idle [OF i w True, of resp later] w pd show ?thesis
        by (simp add: cleanupOldJobs_fields delivered_fields)
    next
      case False
      note n = after_webhook_next [OF i w False, of resp later]
      from n(7) have "heap (after_webhook r p outcome inflight resp later ?s) ! r = heap ?s ! r"
        by (simp add: n(5))
      with w pd n(6) show ?thesis by simp
    qed
  qed
  from a have a': "AwaitProcess r p \<in> set (frames ?s) \<and> outcome \<noteq> RejectsNullish \<longrightarrow>
      terminal (status (heap (step ?s (ProcessSettled r p outcome now tn)) ! r)) \<and>
      fetches (step ?s (ProcessSettled r p outcome now tn)) =
        fetches ?s @
          (if truthy (webhookUrl (heap ?s ! r))
           then [(the (webhookUrl (heap ?s ! r)),
                  webhook_payload (heap (step ?s (ProcessSettled r p outcome now tn)) ! r))]
           else [])" ..
  from d have d': "\<not> truthy (webhookUrl j) \<longrightarrow> sendWebhookNotification_request j s = (False, s)" ..
  from l have l': "AwaitWebhook r p outcome True \<in> set (frames ?s) \<longrightarrow>
      prefix (console (sendWebhookNotification_response resp ?s))
        (console (step ?s (WebhookSettled r p outcome True resp later)))" ..
  from g have g': "AwaitWebhook r p outcome inflight \<in> set (frames ?s) \<longrightarrow>
      heap (step ?s (WebhookSettled r p outcome inflight resp later)) ! r = heap ?s ! r \<and>
      promises (step ?s (WebhookSettled r p outcome inflight resp later)) ! p =
        settlement outcome (heap ?s ! r)" ..
  show ?thesis
    by (intro conjI) (fact a' b c d' e f f1 f2 l' g')+
qed

text \<open>
  Claim C7 fails for the same callback as claim C5, one that rejects with \<^verbatim>\<open>null\<close> or
  \<^verbatim>\<open>undefined\<close>. Two jobs with a \<^verbatim>\<open>webhookUrl\<close> are submitted and the callback of the first
  rejects with \<^verbatim>\<open>null\<close>: the job is failed, no request was made and none is going to be,
  since no invocation waits for a notification and the next job has started; the console
  has no line of the notifier. The \<^verbatim>\<open>catch\<close> block has thrown before its call of
  \<^verbatim>\<open>sendWebhookNotification\<close>. With a rejection by an \<^verbatim>\<open>Error\<close> the same job is notified
  once.
\<close>

theorem nullish_rejection_sends_no_webhook:
  "status (heap (run nullish_events) ! 0) = Failed \<and>
   webhookUrl (heap (run nullish_events) ! 0) = Some ''https://example.test/hook'' \<and>
   fetches (run nullish_events) = [] \<and>
   frames (run nullish_events) = [AwaitProcess 1 1] \<and>
   list_all (\<lambda>l. case l of LogWebhookSending u \<Rightarrow> False | LogJobFailed i m \<Rightarrow> False | _ \<Rightarrow> True)
     (console (run nullish_events)) \<and>
   length (fetches (run (take 2 nullish_events @
     [ProcessSettled 0 0 (Rejects (Some ''boom'')) at_1430 at_1430]))) = 1"
  by code_simp

section \<open>The queue waits for the notification\<close>




section \<open>Retention\<close>

lemma completed_entries_sort:
  "completed_entries s = sort_key (\<lambda>e. - completedAt_time (heap s ! snd e)) (terminal_entries s)"
  by (simp add: completed_entries_def terminal_entries_def terminal_def)

lemma completed_entries_facts:
  "set (completed_entries s) = set (terminal_entries s)"
  "length (completed_entries s) = length (terminal_entries s)"
  "sorted (map (\<lambda>e. - completedAt_time (heap s ! snd e)) (completed_entries s))"
  "distinct (terminal_entries s) \<Longrightarrow> distinct (completed_entries s)"
  by (simp_all add: completed_entries_sort)

lemma length_filter_not_in:
  assumes "distinct xs" "distinct ds" "set ds \<subseteq> set xs"
  shows "length (filter (\<lambda>e. e \<notin> set ds) xs) = length xs - length ds"
proof -
  have "length (filter (\<lambda>e. e \<notin> set ds) xs) = card (set (filter (\<lambda>e. e \<notin> set ds) xs))"
    by (rule distinct_card [symmetric]) (simp add: assms(1))
  also have "set (filter (\<lambda>e. e \<notin> set ds) xs) = set xs - set ds" by auto
  also have "card (set xs - set ds) = card (set xs) - card (set ds)"
    using assms(3) by (simp add: card_Diff_subset)
  finally show ?thesis using assms(1,2) by (simp add: distinct_card)
qed

lemma sorted_take_drop:
  assumes "sorted (map k xs)" "a \<in> set (take n xs)" "b \<in> set (drop n xs)"
  shows "k a \<le> k b"
proof -
  have "map k xs = map k (take n xs) @ map k (drop n xs)"
    by (simp flip: map_append)
  with assms(1) have "sorted (map k (take n xs) @ map k (drop n xs))"
    by simp
  then have "\<forall>x \<in> set (map k (take n xs)). \<forall>y \<in> set (map k (drop n xs)). x \<le> y"
    unfolding sorted_append by (elim conjE)
  moreover from assms(2,3) have "k a \<in> set (map k (take n xs))" "k b \<in> set (map k (drop n xs))"
    by (simp_all only: set_map imageI)
  ultimately show ?thesis by blast
qed

lemma cleanupOldJobs_kept:
  assumes "distinct (map fst (allJobs s))" "50 < length (completed_entries s)"
  shows "allJobs (cleanupOldJobs s) = filter (\<lambda>e. e \<notin> set (drop 50 (completed_entries s))) (allJobs s)"
proof -
  have "filter (\<lambda>e. fst e \<notin> fst ` set (drop 50 (completed_entries s))) (allJobs s) =
      filter (\<lambda>e. e \<notin> set (drop 50 (completed_entries s))) (allJobs s)"
    by (rule filter_cong [OF refl]) (simp add: dropped_key [OF assms(1)])
  with assms(2) show ?thesis by (simp add: cleanupOldJobs_allJobs)
qed

lemma terminal_entries_cleanupOldJobs:
  assumes "distinct (map fst (allJobs s))" "50 < length (completed_entries s)"
  shows "terminal_entries (cleanupOldJobs s) =
    filter (\<lambda>e. e \<notin> set (drop 50 (completed_entries s))) (terminal_entries s)"
  by (simp add: terminal_entries_def cleanupOldJobs_kept [OF assms] cleanupOldJobs_fields conj_commute)

lemma retention_count:
  assumes "distinct (map fst (allJobs s))"
  shows "length (terminal_entries (cleanupOldJobs s)) = min 50 (length (terminal_entries s))"
proof (cases "50 < length (completed_entries s)")
  case False
  then show ?thesis
    by (simp add: terminal_entries_def cleanupOldJobs_allJobs cleanupOldJobs_fields
        completed_entries_facts(2) [unfolded terminal_entries_def])
next
  case True
  from assms have d: "distinct (terminal_entries s)"
    by (simp add: terminal_entries_def distinct_map)
  then have dc: "distinct (drop 50 (completed_entries s))"
    by (simp add: completed_entries_facts(4))
  have sub: "set (drop 50 (completed_entries s)) \<subseteq> set (terminal_entries s)"
    using set_drop_subset [of 50 "completed_entries s"] by (simp add: completed_entries_facts(1))
  from True show ?thesis
    by (simp add: terminal_entries_cleanupOldJobs [OF assms True] length_filter_not_in [OF d dc sub]
        completed_entries_facts(2))
qed

lemma retention_recent:
  assumes "distinct (map fst (allJobs s))"
    and e: "e \<in> set (terminal_entries (cleanupOldJobs s))"
    and d: "d \<in> set (allJobs s)" "d \<notin> set (allJobs (cleanupOldJobs s))"
  shows "terminal (status (heap s ! snd d)) \<and>
    completedAt_time (heap s ! snd d) \<le> completedAt_time (heap s ! snd e)"
proof (cases "50 < length (completed_entries s)")
  case False
  with d show ?thesis by (simp add: cleanupOldJobs_allJobs)
next
  case True
  let ?C = "completed_entries s"
  let ?k = "\<lambda>e. - completedAt_time (heap s ! snd e)"
  from d have dd: "d \<in> set (drop 50 ?C)"
    by (simp add: cleanupOldJobs_kept [OF assms(1) True])
  then have "d \<in> set ?C" by (rule in_set_dropD)
  then have t: "terminal (status (heap s ! snd d))"
    by (simp add: completed_entries_set)
  from e have "e \<in> set ?C" "e \<notin> set (drop 50 ?C)"
    by (simp_all add: terminal_entries_cleanupOldJobs [OF assms(1) True] completed_entries_facts(1))
  then have et: "e \<in> set (take 50 ?C)"
    by (metis Un_iff append_take_drop_id set_append)
  from completed_entries_facts(3) et dd have "?k e \<le> ?k d"
    by (rule sorted_take_drop)
  with t show ?thesis by simp
qed

lemma length_filter_update_same:
  assumes "r < length hp" "P x = P (hp ! r)"
  shows "length (filter P (hp[r := x])) = length (filter P hp)"
proof -
  have "length (filter P (hp[r := x])) =
      length (filter P (take r hp)) + length (filter P [x]) + length (filter P (drop (Suc r) hp))"
    using assms(1) by (simp add: upd_conv_take_nth_drop)
  moreover have "length (filter P hp) =
      length (filter P (take r hp)) + length (filter P [hp ! r]) + length (filter P (drop (Suc r) hp))"
    by (subst id_take_nth_drop [OF assms(1)]) simp
  ultimately show ?thesis using assms(2) by simp
qed

lemma length_filter_update_new:
  assumes "r < length hp" "\<not> P (hp ! r)" "P x"
  shows "length (filter P (hp[r := x])) = Suc (length (filter P hp))"
proof -
  have "length (filter P (hp[r := x])) =
      length (filter P (take r hp)) + length (filter P [x]) + length (filter P (drop (Suc r) hp))"
    using assms(1) by (simp add: upd_conv_take_nth_drop)
  moreover have "length (filter P hp) =
      length (filter P (take r hp)) + length (filter P [hp ! r]) + length (filter P (drop (Suc r) hp))"
    by (subst id_take_nth_drop [OF assms(1)]) simp
  ultimately show ?thesis using assms(2,3) by simp
qed

lemma length_filter_one_more:
  assumes "distinct xs" "e0 \<in> set xs" "\<not> P e0"
  shows "length (filter (\<lambda>e. e = e0 \<or> P e) xs) = Suc (length (filter P xs))"
  using assms
proof (induction xs)
  case Nil
  then show ?case by simp
next
  case (Cons x xs)
  show ?case
  proof (cases "x = e0")
    case True
    with Cons.prems have "e0 \<notin> set xs" by simp
    then have "filter (\<lambda>e. e = e0 \<or> P e) xs = filter P xs"
      by (intro filter_cong) auto
    with True Cons.prems show ?thesis by simp
  next
    case False
    with Cons show ?thesis by simp
  qed
qed

lemma terminal_entries_processNextJob:
  assumes "scheduler_inv_weak s"
  shows "terminal_entries (processNextJob now s) = terminal_entries s"
    "length (finished_jobs (processNextJob now s)) = length (finished_jobs s)"
    "list_ex is_AwaitWebhook (frames (processNextJob now s)) = list_ex is_AwaitWebhook (frames s)"
proof -
  have "terminal_entries (processNextJob now s) = terminal_entries s \<and>
    length (finished_jobs (processNextJob now s)) = length (finished_jobs s) \<and>
    list_ex is_AwaitWebhook (frames (processNextJob now s)) = list_ex is_AwaitWebhook (frames s)"
  proof (cases "isProcessing s \<or> jobQueue s = []")
    case True
    then show ?thesis by (simp add: processNextJob_idle)
  next
    case False
    then obtain e q where eq: "jobQueue s = e # q" and idle: "\<not> isProcessing s"
      by (cases "jobQueue s") auto
    from assms have qu: "inv_queue s" by (simp add: scheduler_inv_weak_def)
    note h = queue_head [OF qu eq]
    from qu h(2) have st: "status (heap s ! started s) = Queued" by (simp add: inv_queue_def)
    note s' = processNextJob_start [OF idle eq, of now]
    have "terminal (status (heap (processNextJob now s) ! q)) = terminal (status (heap s ! q))" for q
      using h(2) st by (auto simp: s' h(1) nth_list_update terminal_def)
    then have a: "terminal_entries (processNextJob now s) = terminal_entries s"
      by (simp add: terminal_entries_def) (simp add: s')
    have b: "length (finished_jobs (processNextJob now s)) = length (finished_jobs s)"
      using h(2) st
      by (simp add: finished_jobs_def s' h(1) length_filter_update_same terminal_def)
    have c: "list_ex is_AwaitWebhook (frames (processNextJob now s)) = list_ex is_AwaitWebhook (frames s)"
      by (simp add: s')
    from a b c show ?thesis by simp
  qed
  then show "terminal_entries (processNextJob now s) = terminal_entries s"
    and "length (finished_jobs (processNextJob now s)) = length (finished_jobs s)"
    and "list_ex is_AwaitWebhook (frames (processNextJob now s)) = list_ex is_AwaitWebhook (frames s)"
    by simp_all
qed

lemma terminal_entries_enqueued:
  assumes "scheduler_inv_weak s"
  shows "terminal_entries (enqueued opts now1 now2 s) = terminal_entries s"
    "finished_jobs (enqueued opts now1 now2 s) = finished_jobs s"
proof -
  from assms have a: "inv_alloc s" and st: "inv_store s" by (simp_all add: scheduler_inv_weak_def)
  let ?s = "enqueued opts now1 now2 s"
  have u: "allJobs ?s = allJobs s @ [(fst (generateJobId now1 (jobIdCounter s)), length (heap s))]"
    using fresh_id [OF a st, of now1] by (simp add: enqueued_fields update_fresh)
  have old: "heap ?s ! snd e = heap s ! snd e" if "e \<in> set (allJobs s)" for e
  proof -
    from st that have "snd e < length (heap s)" by (simp add: inv_store_def)
    then show ?thesis by (subst enqueued_heap) (simp add: nth_append)
  qed
  have new: "heap ?s ! length (heap s) = last (heap ?s)"
    by (subst enqueued_heap) simp
  have "filter (\<lambda>e. terminal (status (heap ?s ! snd e))) (allJobs s) =
      filter (\<lambda>e. terminal (status (heap s ! snd e))) (allJobs s)"
    by (rule filter_cong [OF refl]) (simp add: old)
  then show "terminal_entries ?s = terminal_entries s"
    unfolding terminal_entries_def u
    by (simp add: new enqueued_fields(2) terminal_def)
  show "finished_jobs ?s = finished_jobs s"
    unfolding finished_jobs_def
    by (subst enqueued_heap) (simp add: enqueued_fields terminal_def)
qed

text \<open>The job of the suspended invocation becomes a finished job of the store.\<close>

lemma terminal_entries_finished:
  assumes "scheduler_inv s" "AwaitProcess r p \<in> set (frames s)"
    and "heap s' = (heap s)[r := finished_job (heap s ! r) outcome now]" "allJobs s' = allJobs s"
  shows "length (terminal_entries s') = Suc (length (terminal_entries s))"
    "length (finished_jobs s') = Suc (length (finished_jobs s))"
    "set (terminal_entries s') = insert (job_id (heap s ! r), r) (set (terminal_entries s))"
proof -
  note a = awaiting_process [OF assms(1,2)]
  from assms(1) have st: "inv_store s" by (simp add: scheduler_inv_def scheduler_inv_weak_def)
  let ?e0 = "(job_id (heap s ! r), r)"
  from a(5) have nt: "\<not> terminal (status (heap s ! r))" by (simp add: terminal_def)
  with st a(3) have e0: "?e0 \<in> set (allJobs s)" by (simp add: inv_store_def)
  from st have d: "distinct (allJobs s)" by (simp add: inv_store_def distinct_map)
  have eq: "filter (\<lambda>e. terminal (status ((heap s)[r := finished_job (heap s ! r) outcome now] ! snd e))) (allJobs s)
      = filter (\<lambda>e. e = ?e0 \<or> terminal (status (heap s ! snd e))) (allJobs s)"
  proof (rule filter_cong [OF refl])
    fix e assume "e \<in> set (allJobs s)"
    with st have "fst e = job_id (heap s ! snd e)" by (simp add: inv_store_def)
    then have "e = ?e0 \<longleftrightarrow> snd e = r" by (auto simp: prod_eq_iff)
    then show "terminal (status ((heap s)[r := finished_job (heap s ! r) outcome now] ! snd e))
        = (e = ?e0 \<or> terminal (status (heap s ! snd e)))"
      using a(3) by (simp add: nth_list_update finished_job_fields)
  qed
  with length_filter_one_more [OF d e0, of "\<lambda>e. terminal (status (heap s ! snd e))"] nt
  show "length (terminal_entries s') = Suc (length (terminal_entries s))"
    by (simp add: terminal_entries_def assms(3,4))
  from a(3) nt show "length (finished_jobs s') = Suc (length (finished_jobs s))"
    by (simp add: finished_jobs_def assms(3) length_filter_update_new finished_job_fields)
  from eq e0 show "set (terminal_entries s') = insert ?e0 (set (terminal_entries s))"
    by (auto simp: terminal_entries_def assms(3,4))
qed

lemma min_fifty: "0 < t \<Longrightarrow> min 50 (Suc (min 50 (t - 1))) = min (50::nat) t"
  by (cases t) (auto simp: min_def)

lemma min_fifty_Suc: "min 50 (Suc (min 50 t)) = min (50::nat) (Suc t)"
  by (auto simp: min_def)

lemma step_retention:
  assumes "scheduler_inv s" "inv_retention s"
  shows "inv_retention (step s e)"
proof (cases e)
  case (QueueJob opts now1 now2 now3)
  from assms(1) have w: "scheduler_inv_weak s" by (simp add: scheduler_inv_def)
  then have w': "scheduler_inv_weak (enqueued opts now1 now2 s)" by (rule enqueued_inv_weak)
  from assms(2) show ?thesis
    by (simp add: QueueJob queueJob_eq inv_retention_def terminal_entries_processNextJob [OF w']
        terminal_entries_enqueued [OF w] enqueued_fields)
next
  case (ProcessSettled r p outcome now later)
  show ?thesis
  proof (cases "AwaitProcess r p \<in> set (frames s)")
    case False
    with assms(2) ProcessSettled show ?thesis by simp
  next
    case True
    note a = awaiting_process [OF assms(1) True]
    from assms(2) a(1) have ts: "length (terminal_entries s) = min 50 (length (finished_jobs s))"
      by (simp add: inv_retention_def)
    show ?thesis
    proof (cases "outcome = RejectsNullish")
      case nullish: True
      let ?d = "aborted r p now s"
      note t = terminal_entries_finished [OF assms(1) True, of ?d RejectsNullish now]
      have w: "scheduler_inv_weak (cleanupOldJobs ?d)"
        using assms(1) True by (simp add: cleanupOldJobs_inv_weak aborted_inv_weak)
      from assms(1) have "inv_store s" by (simp add: scheduler_inv_def scheduler_inv_weak_def)
      then have dk: "distinct (map fst (allJobs ?d))" by (simp add: inv_store_def aborted_fields)
      have "length (terminal_entries (cleanupOldJobs ?d)) = min 50 (Suc (length (finished_jobs s)))"
        by (simp add: retention_count [OF dk] t(1) aborted_fields ts min_fifty_Suc)
      moreover have "length (finished_jobs (cleanupOldJobs ?d)) = Suc (length (finished_jobs s))"
        using t(2) by (simp add: finished_jobs_def cleanupOldJobs_fields aborted_fields)
      ultimately show ?thesis
        using True nullish ProcessSettled a(1)
        by (simp add: after_process_nullish inv_retention_def terminal_entries_processNextJob [OF w]
            cleanupOldJobs_fields aborted_fields)
    next
      case False
      note t = terminal_entries_finished [OF assms(1) True,
          of "after_process r p outcome now later s" outcome now]
      from ts True ProcessSettled a(1) False show ?thesis
        by (simp add: inv_retention_def t after_process_fields)
    qed
  qed
next
  case (WebhookSettled r p outcome inflight resp now)
  show ?thesis
  proof (cases "AwaitWebhook r p outcome inflight \<in> set (frames s)")
    case False
    with assms(2) WebhookSettled show ?thesis by simp
  next
    case True
    note aw = awaiting_webhook [OF assms(1) True]
    let ?d = "delivered r p outcome inflight resp s"
    have w: "scheduler_inv_weak (cleanupOldJobs ?d)"
      using assms(1) True by (simp add: cleanupOldJobs_inv_weak delivered_inv_weak)
    from assms(1) have "inv_store s" by (simp add: scheduler_inv_def scheduler_inv_weak_def)
    then have dk: "distinct (map fst (allJobs ?d))" by (simp add: inv_store_def delivered_fields)
    have te: "terminal_entries ?d = terminal_entries s"
      by (simp add: terminal_entries_def delivered_fields)
    from aw(3,4,9) have "heap s ! r \<in> set (finished_jobs s)"
      by (simp add: finished_jobs_def)
    then have pos: "0 < length (finished_jobs s)"
      by (rule length_pos_if_in_set)
    have "length (terminal_entries (cleanupOldJobs ?d)) = min 50 (length (terminal_entries s))"
      by (simp add: retention_count [OF dk] te)
    also have "\<dots> = min 50 (length (finished_jobs s))"
    proof -
      from assms(2) aw(1)
      have "length (terminal_entries s) = Suc (min 50 (length (finished_jobs s) - 1))"
        by (simp add: inv_retention_def)
      with min_fifty [OF pos] show ?thesis by (simp only:)
    qed
    finally have "length (terminal_entries (cleanupOldJobs ?d)) = min 50 (length (finished_jobs s))" .
    moreover have "finished_jobs (cleanupOldJobs ?d) = finished_jobs s"
      by (simp add: finished_jobs_def cleanupOldJobs_fields delivered_fields)
    ultimately show ?thesis
      using True WebhookSettled aw(1)
      by (simp add: after_webhook_eq inv_retention_def terminal_entries_processNextJob [OF w]
          cleanupOldJobs_fields delivered_fields)
  qed
qed

lemma run_retention: "inv_retention (run es)"
proof (induction es rule: rev_induct)
  case Nil
  show ?case
    by (simp add: run_def init_def inv_retention_def terminal_entries_def finished_jobs_def)
next
  case (snoc e es)
  then show ?case unfolding run_snoc by (intro step_retention run_inv)
qed

lemma idle_state:
  assumes "scheduler_inv s" "frames s = []"
  shows "finished_jobs s = heap s" "terminal_entries s = allJobs s"
    "\<forall>q < length (heap s). terminal (status (heap s ! q))" "jobQueue s = []"
proof -
  from assms(1) have fr: "inv_frames s" and st: "inv_store s"
    and busy: "jobQueue s \<noteq> [] \<longrightarrow> isProcessing s"
    by (simp_all add: scheduler_inv_def scheduler_inv_weak_def)
  from fr assms(2) have idle: "\<not> isProcessing s" and t: "\<forall>q < started s. terminal (status (heap s ! q))"
    by (simp_all add: inv_frames_def)
  with busy show "jobQueue s = []" by simp
  then have "started s = length (heap s)" by (simp add: started_def)
  with t show all: "\<forall>q < length (heap s). terminal (status (heap s ! q))" by simp
  then have "\<forall>j \<in> set (heap s). terminal (status j)"
    by (auto simp: in_set_conv_nth)
  then show "finished_jobs s = heap s"
    by (simp add: finished_jobs_def)
  from st all have "\<forall>e \<in> set (allJobs s). terminal (status (heap s ! snd e))"
    by (simp add: inv_store_def)
  then show "terminal_entries s = allJobs s"
    by (simp add: terminal_entries_def)
qed

text \<open>
  A finished job that has left the store: then the store holds fewer finished jobs
  than the heap.
\<close>

lemma removed_count:
  assumes "inv_store s" "d < length (heap s)" "(job_id (heap s ! d), d) \<notin> set (allJobs s)"
  shows "length (terminal_entries s) < length (finished_jobs s)"
proof -
  let ?A = "{q. q < length (heap s) \<and> terminal (status (heap s ! q))}"
  from assms have td: "terminal (status (heap s ! d))" by (auto simp: inv_store_def)
  have key: "e = (job_id (heap s ! snd e), snd e)" if "e \<in> set (allJobs s)" for e
    using assms(1) that by (auto simp: inv_store_def prod_eq_iff)
  have inj: "inj_on snd (set (terminal_entries s))"
  proof (rule inj_onI)
    fix a b assume "a \<in> set (terminal_entries s)" "b \<in> set (terminal_entries s)" "snd a = snd b"
    then show "a = b" using key [of a] key [of b] by (simp add: terminal_entries_def)
  qed
  from assms(1) have "distinct (terminal_entries s)"
    by (simp add: terminal_entries_def inv_store_def distinct_map)
  with inj have "distinct (map snd (terminal_entries s))"
    by (simp add: distinct_map)
  then have "length (terminal_entries s) = card (snd ` set (terminal_entries s))"
    by (metis distinct_card length_map set_map)
  also have "\<dots> \<le> card (?A - {d})"
  proof (rule card_mono)
    show "finite (?A - {d})" by simp
    show "snd ` set (terminal_entries s) \<subseteq> ?A - {d}"
    proof
      fix q assume "q \<in> snd ` set (terminal_entries s)"
      then obtain e where e: "e \<in> set (allJobs s)" "terminal (status (heap s ! snd e))" "q = snd e"
        by (auto simp: terminal_entries_def)
      from assms(1) e(1) have "snd e < length (heap s)" by (simp add: inv_store_def)
      moreover from key [OF e(1)] e(1) assms(3) have "snd e \<noteq> d" by auto
      ultimately show "q \<in> ?A - {d}" using e(2,3) by simp
    qed
  qed
  also have "\<dots> < card ?A"
    using assms(2) td by (intro card_Diff1_less) simp_all
  also have "card ?A = length (finished_jobs s)"
    by (simp add: finished_jobs_def length_filter_conv_card)
  finally show ?thesis .
qed

text \<open>
  The trimming keeps the most recent jobs of the whole run, when this held before for
  all stored jobs but the one just finished.
\<close>

lemma cleanupOldJobs_recent:
  assumes st: "inv_store s"
    and before: "\<forall>d < length (heap s). \<forall>e \<in> set (terminal_entries s).
      (job_id (heap s ! d), d) \<notin> set (allJobs s) \<and> snd e \<noteq> x \<longrightarrow>
      completedAt_time (heap s ! d) \<le> completedAt_time (heap s ! snd e)"
    and full: "(\<exists>d < length (heap s). (job_id (heap s ! d), d) \<notin> set (allJobs s)) \<longrightarrow>
      50 < length (terminal_entries s)"
  shows "\<forall>d < length (heap s). \<forall>e \<in> set (terminal_entries (cleanupOldJobs s)).
      (job_id (heap s ! d), d) \<notin> set (allJobs (cleanupOldJobs s)) \<longrightarrow>
      completedAt_time (heap s ! d) \<le> completedAt_time (heap s ! snd e)"
proof (intro allI impI ballI)
  fix d e
  assume d: "d < length (heap s)" and e: "e \<in> set (terminal_entries (cleanupOldJobs s))"
    and gone: "(job_id (heap s ! d), d) \<notin> set (allJobs (cleanupOldJobs s))"
  from st have dk: "distinct (map fst (allJobs s))" by (simp add: inv_store_def)
  have key: "a = (job_id (heap s ! snd a), snd a)" if "a \<in> set (allJobs s)" for a
    using st that by (auto simp: inv_store_def prod_eq_iff)
  have sub: "set (allJobs (cleanupOldJobs s)) \<subseteq> set (allJobs s)"
    by (auto simp: cleanupOldJobs_allJobs)
  from e have e': "e \<in> set (allJobs (cleanupOldJobs s))"
    by (simp add: terminal_entries_def)
  with sub e have eT: "e \<in> set (terminal_entries s)"
    by (auto simp: terminal_entries_def cleanupOldJobs_fields)
  show "completedAt_time (heap s ! d) \<le> completedAt_time (heap s ! snd e)"
  proof (cases "(job_id (heap s ! d), d) \<in> set (allJobs s)")
    case True
    from retention_recent [OF dk e True gone] show ?thesis by simp
  next
    case False
    show ?thesis
    proof (cases "snd e = x")
      case False
      with before d eT \<open>(job_id (heap s ! d), d) \<notin> set (allJobs s)\<close> show ?thesis by blast
    next
      case True
      from full d \<open>(job_id (heap s ! d), d) \<notin> set (allJobs s)\<close>
      have big: "50 < length (completed_entries s)"
        by (auto simp: completed_entries_facts(2))
      then have "drop 50 (completed_entries s) \<noteq> []" by simp
      then obtain dd where dd: "dd \<in> set (drop 50 (completed_entries s))"
        by (cases "drop 50 (completed_entries s)") auto
      then have "dd \<in> set (completed_entries s)" by (rule in_set_dropD)
      then have ddT: "dd \<in> set (terminal_entries s)" by (simp add: completed_entries_facts(1))
      then have ddA: "dd \<in> set (allJobs s)" by (simp add: terminal_entries_def)
      from dd have ddG: "dd \<notin> set (allJobs (cleanupOldJobs s))"
        by (simp add: cleanupOldJobs_kept [OF dk big])
      with e' have "dd \<noteq> e" by auto
      with key [OF ddA] key [of e] sub e' have "snd dd \<noteq> snd e" by auto
      with True have "snd dd \<noteq> x" by simp
      moreover from st ddA have "snd dd < length (heap s)" by (simp add: inv_store_def)
      ultimately have "completedAt_time (heap s ! d) \<le> completedAt_time (heap s ! snd dd)"
        using before d ddT \<open>(job_id (heap s ! d), d) \<notin> set (allJobs s)\<close> by blast
      also from retention_recent [OF dk e ddA ddG]
      have "completedAt_time (heap s ! snd dd) \<le> completedAt_time (heap s ! snd e)" by simp
      finally show ?thesis .
    qed
  qed
qed

lemma processNextJob_recent:
  assumes "scheduler_inv_weak s" "inv_recent s"
  shows "inv_recent (processNextJob now s)"
proof (cases "isProcessing s \<or> jobQueue s = []")
  case True
  with assms(2) show ?thesis by (simp add: processNextJob_idle)
next
  case False
  then obtain e q where eq: "jobQueue s = e # q" and idle: "\<not> isProcessing s"
    by (cases "jobQueue s") auto
  from assms(1) have qu: "inv_queue s" and fr: "inv_frames s" and st: "inv_store s"
    by (simp_all add: scheduler_inv_weak_def)
  note h = queue_head [OF qu eq]
  from qu h(2) have q0: "status (heap s ! started s) = Queued" by (simp add: inv_queue_def)
  from fr idle have f0: "frames s = []" by (rule idle_frames)
  note s' = processNextJob_start [OF idle eq, of now]
  let ?s = "processNextJob now s"
  have hp: "heap ?s = (heap s)[started s := (heap s ! started s)\<lparr>status := Processing, startedAt := Some now\<rparr>]"
    and aj: "allJobs ?s = allJobs s" and wj: "waiting_jobs (frames ?s) = []"
    by (simp_all add: s' h(1) f0)
  have same: "terminal (status (heap ?s ! k)) = terminal (status (heap s ! k)) \<and>
      completedAt_time (heap ?s ! k) = completedAt_time (heap s ! k) \<and>
      job_id (heap ?s ! k) = job_id (heap s ! k)" for k
    using h(2) q0 by (auto simp: hp nth_list_update terminal_def completedAt_time_def)
  from assms(2) show ?thesis
    by (simp add: inv_recent_def terminal_entries_def same aj wj f0) (simp add: hp)
qed

lemma step_recent:
  assumes "scheduler_inv s" "inv_retention s" "inv_recent s"
  shows "inv_recent (step s e)"
proof (cases e)
  case (QueueJob opts now1 now2 now3)
  from assms(1) have w: "scheduler_inv_weak s" by (simp add: scheduler_inv_def)
  then have a: "inv_alloc s" and st: "inv_store s" by (simp_all add: scheduler_inv_weak_def)
  let ?q = "enqueued opts now1 now2 s"
  from w have w': "scheduler_inv_weak ?q" by (rule enqueued_inv_weak)
  have u: "allJobs ?q = allJobs s @ [(fst (generateJobId now1 (jobIdCounter s)), length (heap s))]"
    using fresh_id [OF a st, of now1] by (simp add: enqueued_fields update_fresh)
  have len: "length (heap ?q) = Suc (length (heap s))"
    by (subst enqueued_heap) simp
  have old: "heap ?q ! k = heap s ! k" if "k < length (heap s)" for k
    using that by (subst enqueued_heap) (simp add: nth_append)
  have new: "heap ?q ! length (heap s) = last (heap ?q)"
    by (subst enqueued_heap) simp
  have "inv_recent ?q"
    unfolding inv_recent_def
  proof (intro allI impI ballI)
    fix d e
    assume d: "d < length (heap ?q)" and e: "e \<in> set (terminal_entries ?q)"
      and g: "(job_id (heap ?q ! d), d) \<notin> set (allJobs ?q) \<and> snd e \<notin> set (waiting_jobs (frames ?q))"
    from e have eT: "e \<in> set (terminal_entries s)"
      by (simp add: terminal_entries_enqueued [OF w])
    then have "e \<in> set (allJobs s)" by (simp add: terminal_entries_def)
    with st have el: "snd e < length (heap s)" by (simp add: inv_store_def)
    have dl: "d < length (heap s)"
    proof (rule ccontr)
      assume "\<not> d < length (heap s)"
      with d len have "d = length (heap s)" by simp
      with g show False by (simp add: u new enqueued_fields(1))
    qed
    with g have "(job_id (heap s ! d), d) \<notin> set (allJobs s) \<and> snd e \<notin> set (waiting_jobs (frames s))"
      by (simp add: u old enqueued_fields(9))
    with assms(3) dl eT have "completedAt_time (heap s ! d) \<le> completedAt_time (heap s ! snd e)"
      unfolding inv_recent_def by blast
    with dl el show "completedAt_time (heap ?q ! d) \<le> completedAt_time (heap ?q ! snd e)"
      by (simp add: old)
  qed
  with w' show ?thesis
    unfolding QueueJob step.simps queueJob_eq snd_conv by (rule processNextJob_recent)
next
  case (ProcessSettled r p outcome now later)
  show ?thesis
  proof (cases "AwaitProcess r p \<in> set (frames s)")
    case False
    with assms(3) ProcessSettled show ?thesis by simp
  next
    case True
    note a = awaiting_process [OF assms(1) True]
    from assms(1) have st: "inv_store s" by (simp add: scheduler_inv_def scheduler_inv_weak_def)
    from a(5) have nt: "\<not> terminal (status (heap s ! r))" by (simp add: terminal_def)
    with st a(3) have e0: "(job_id (heap s ! r), r) \<in> set (allJobs s)" by (simp add: inv_store_def)
    from assms(2) a(1) have ts: "length (terminal_entries s) = min 50 (length (finished_jobs s))"
      by (simp add: inv_retention_def)
    have before: "completedAt_time (heap s' ! d) \<le> completedAt_time (heap s' ! snd e)"
      if s': "heap s' = (heap s)[r := finished_job (heap s ! r) outcome now]" "allJobs s' = allJobs s"
        and d: "d < length (heap s')" "(job_id (heap s' ! d), d) \<notin> set (allJobs s')"
        and e: "e \<in> set (terminal_entries s')" "snd e \<noteq> r" for s' d e
    proof -
      note t = terminal_entries_finished(3) [OF assms(1) True s']
      from e t have eT: "e \<in> set (terminal_entries s)" by auto
      from d(1) have dl: "d < length (heap s)" by (simp add: s')
      have "d \<noteq> r"
        using d(2) e0 a(3) by (auto simp: s' finished_job_fields)
      with d(2) have "(job_id (heap s ! d), d) \<notin> set (allJobs s)"
        by (simp add: s')
      with assms(3) dl eT a(1) have "completedAt_time (heap s ! d) \<le> completedAt_time (heap s ! snd e)"
        unfolding inv_recent_def by auto
      with \<open>d \<noteq> r\<close> e(2) show ?thesis by (simp add: s')
    qed
    show ?thesis
    proof (cases "outcome = RejectsNullish")
      case False
      let ?s = "after_process r p outcome now later s"
      note f = after_process_fields [OF False, of r p now later s]
      have "waiting_jobs (frames ?s) = [r]" by (simp add: f a(1))
      with before [OF f(1) f(5)] have "inv_recent ?s"
        unfolding inv_recent_def by auto
      with True ProcessSettled show ?thesis by simp
    next
      case nullish: True
      let ?d = "aborted r p now s"
      have hd: "heap ?d = (heap s)[r := finished_job (heap s ! r) outcome now]"
        and ad: "allJobs ?d = allJobs s"
        by (simp_all add: aborted_fields nullish)
      have w: "scheduler_inv_weak ?d"
        using assms(1) True by (rule aborted_inv_weak)
      then have sd: "inv_store ?d" by (simp add: scheduler_inv_weak_def)
      note t = terminal_entries_finished [OF assms(1) True hd ad]
      have full: "(\<exists>d < length (heap ?d). (job_id (heap ?d ! d), d) \<notin> set (allJobs ?d)) \<longrightarrow>
          50 < length (terminal_entries ?d)"
      proof
        assume "\<exists>d < length (heap ?d). (job_id (heap ?d ! d), d) \<notin> set (allJobs ?d)"
        then obtain d where "d < length (heap ?d)" "(job_id (heap ?d ! d), d) \<notin> set (allJobs ?d)"
          by blast
        from removed_count [OF sd this] t(1,2) ts
        show "50 < length (terminal_entries ?d)" by (simp add: min_def split: if_splits)
      qed
      have "\<forall>d < length (heap ?d). \<forall>e \<in> set (terminal_entries (cleanupOldJobs ?d)).
          (job_id (heap ?d ! d), d) \<notin> set (allJobs (cleanupOldJobs ?d)) \<longrightarrow>
          completedAt_time (heap ?d ! d) \<le> completedAt_time (heap ?d ! snd e)"
        using before [OF hd ad] by (intro cleanupOldJobs_recent [OF sd _ full, of r]) blast
      then have "inv_recent (cleanupOldJobs ?d)"
        by (simp add: inv_recent_def cleanupOldJobs_fields)
      moreover from w have "scheduler_inv_weak (cleanupOldJobs ?d)"
        by (rule cleanupOldJobs_inv_weak)
      ultimately have "inv_recent (processNextJob later (cleanupOldJobs ?d))"
        by (intro processNextJob_recent)
      with True nullish ProcessSettled show ?thesis
        by (simp add: after_process_nullish)
    qed
  qed
next
  case (WebhookSettled r p outcome inflight resp now)
  show ?thesis
  proof (cases "AwaitWebhook r p outcome inflight \<in> set (frames s)")
    case False
    with assms(3) WebhookSettled show ?thesis by simp
  next
    case True
    note aw = awaiting_webhook [OF assms(1) True]
    let ?d = "delivered r p outcome inflight resp s"
    have w: "scheduler_inv_weak ?d"
      using assms(1) True by (rule delivered_inv_weak)
    then have sd: "inv_store ?d" by (simp add: scheduler_inv_weak_def)
    have te: "terminal_entries ?d = terminal_entries s" and fj: "finished_jobs ?d = finished_jobs s"
      by (simp_all add: terminal_entries_def finished_jobs_def delivered_fields)
    from assms(2) aw(1)
    have ts: "length (terminal_entries s) = Suc (min 50 (length (finished_jobs s) - 1))"
      by (simp add: inv_retention_def)
    have full: "(\<exists>d < length (heap ?d). (job_id (heap ?d ! d), d) \<notin> set (allJobs ?d)) \<longrightarrow>
        50 < length (terminal_entries ?d)"
    proof
      assume "\<exists>d < length (heap ?d). (job_id (heap ?d ! d), d) \<notin> set (allJobs ?d)"
      then obtain d where "d < length (heap ?d)" "(job_id (heap ?d ! d), d) \<notin> set (allJobs ?d)"
        by blast
      from removed_count [OF sd this] ts
      show "50 < length (terminal_entries ?d)" by (simp add: te fj min_def split: if_splits)
    qed
    have before: "\<forall>d < length (heap ?d). \<forall>e \<in> set (terminal_entries ?d).
        (job_id (heap ?d ! d), d) \<notin> set (allJobs ?d) \<and> snd e \<noteq> r \<longrightarrow>
        completedAt_time (heap ?d ! d) \<le> completedAt_time (heap ?d ! snd e)"
      using assms(3) by (simp add: inv_recent_def te delivered_fields aw(1))
    from cleanupOldJobs_recent [OF sd before full]
    have "inv_recent (cleanupOldJobs ?d)"
      by (simp add: inv_recent_def cleanupOldJobs_fields)
    moreover from w have "scheduler_inv_weak (cleanupOldJobs ?d)"
      by (rule cleanupOldJobs_inv_weak)
    ultimately have "inv_recent (processNextJob now (cleanupOldJobs ?d))"
      by (intro processNextJob_recent)
    with True WebhookSettled show ?thesis
      by (simp add: after_webhook_eq)
  qed
qed

lemma run_recent: "inv_recent (run es)"
proof (induction es rule: rev_induct)
  case Nil
  show ?case by (simp add: run_def init_def inv_recent_def)
next
  case (snoc e es)
  then show ?case unfolding run_snoc by (intro step_recent run_inv run_retention)
qed

text \<open>
  The store after a step is the store before, trimmed by \<^verbatim>\<open>cleanupOldJobs\<close> in the steps
  that run the \<^verbatim>\<open>finally\<close> block.
\<close>

lemma allJobs_processNextJob: "allJobs (processNextJob now s) = allJobs s"
  by (simp add: processNextJob_def Let_def)

lemma cleanupOldJobs_cong:
  "heap s' = heap s \<Longrightarrow> allJobs s' = allJobs s \<Longrightarrow> allJobs (cleanupOldJobs s') = allJobs (cleanupOldJobs s)"
  by (simp add: cleanupOldJobs_allJobs completed_entries_def)

text \<open>Jobs served one after the other, each to the end before the next is submitted.\<close>

lemma enqueued_webhookUrl:
  "webhookUrl (last (heap (enqueued opts now1 now2 s))) =
     (if truthy (opt_webhookUrl opts) then opt_webhookUrl opts else None)"
  by (simp add: enqueued_def createJob_eq Let_def)

lemma run_append: "run (es @ es') = foldl step (run es) es'"
  by (simp add: run_def)

lemma served_run:
  assumes "frames (run es) = []"
  defines "k \<equiv> length (heap (run es))"
  shows "frames (run (es @ take 2 (served k))) = [AwaitWebhook k k (Resolves [ok_result]) True]"
    "length (heap (run (es @ take 2 (served k)))) = Suc k"
    "jobQueue (run (es @ take 2 (served k))) = []"
    "frames (run (es @ served k)) = []"
    "length (heap (run (es @ served k))) = Suc k"
    "completedAt_time (heap (run (es @ served k)) ! k) = time_value (tick k)"
    "\<forall>q < k. heap (run (es @ served k)) ! q = heap (run es) ! q"
proof -
  let ?s = "run es"
  let ?a = "QueueJob two_recordings (tick k) (tick k) (tick k)"
  let ?b = "ProcessSettled k k (Resolves [ok_result]) (tick k) (tick k)"
  let ?c = "WebhookSettled k k (Resolves [ok_result]) True (Response True 200 ''OK'') (tick k)"
  let ?q = "enqueued two_recordings (tick k) (tick k) ?s"
  define s1 where "s1 = step ?s ?a"
  define s2 where "s2 = step s1 ?b"
  define s3 where "s3 = step s2 ?c"
  have r1: "run (es @ [?a]) = s1" and r2: "run (es @ take 2 (served k)) = s2"
    and r3: "run (es @ served k) = s3"
    by (simp_all add: run_append served_def s1_def s2_def s3_def)
  have i: "scheduler_inv ?s" by (rule run_inv)
  have i1: "scheduler_inv s1" unfolding r1 [symmetric] by (rule run_inv)
  have i2: "scheduler_inv s2" unfolding r2 [symmetric] by (rule run_inv)
  from i have fr: "inv_frames ?s" and al: "inv_alloc ?s"
    by (simp_all add: scheduler_inv_def scheduler_inv_weak_def)
  from fr assms(1) have idle: "\<not> isProcessing ?s" by (simp add: inv_frames_def)
  from al have pl: "length (promises ?s) = k" by (simp add: inv_alloc_def k_def)
  note q0 = idle_state(4) [OF i assms(1)]
  have idle': "\<not> isProcessing ?q" and eq: "jobQueue ?q = [\<lparr>job = k, promise = k\<rparr>]"
    using idle q0 pl by (simp_all add: enqueued_fields k_def)
  have hq: "heap ?q = heap ?s @ [last (heap ?q)]" by (rule enqueued_heap)
  have lq: "length (heap ?q) = Suc k"
    by (subst hq) (simp add: k_def)
  have nq: "heap ?q ! k = last (heap ?q)"
    by (subst hq) (simp add: k_def)
  have oq: "\<forall>q < k. heap ?q ! q = heap ?s ! q"
    by (subst hq) (simp add: k_def nth_append)
  have s1: "s1 = processNextJob (tick k) ?q"
    by (simp add: s1_def queueJob_eq)
  note st = processNextJob_start [OF idle' eq, of "tick k", folded s1]
  have f1: "frames s1 = [AwaitProcess k k]"
    by (simp add: st enqueued_fields assms(1))
  have h1: "heap s1 = (heap ?q)[k := (heap ?q ! k)\<lparr>status := Processing, startedAt := Some (tick k)\<rparr>]"
    and q1: "jobQueue s1 = []"
    by (simp_all add: st)
  have "webhookUrl (heap ?q ! k) =
      (if truthy (opt_webhookUrl two_recordings) then opt_webhookUrl two_recordings else None)"
    by (simp only: nq enqueued_webhookUrl)
  then have "truthy (webhookUrl (heap ?q ! k))"
    by (simp add: two_recordings_def truthy_def)
  then have u1: "truthy (webhookUrl (heap s1 ! k))"
    using lq by (simp add: h1)
  have a1: "AwaitProcess k k \<in> set (frames s1)" by (simp add: f1)
  have s2: "s2 = after_process k k (Resolves [ok_result]) (tick k) (tick k) s1"
    using a1 by (simp add: s2_def)
  have f2: "frames s2 = [AwaitWebhook k k (Resolves [ok_result]) True]"
    by (simp add: s2 after_process_fields f1 u1)
  have h2: "heap s2 = (heap s1)[k := finished_job (heap s1 ! k) (Resolves [ok_result]) (tick k)]"
    and q2: "jobQueue s2 = []"
    by (simp_all add: s2 after_process_fields q1)
  have l2: "length (heap s2) = Suc k" by (simp add: h2 h1 lq)
  have a2: "AwaitWebhook k k (Resolves [ok_result]) True \<in> set (frames s2)" by (simp add: f2)
  have s3: "s3 = after_webhook k k (Resolves [ok_result]) True (Response True 200 ''OK'') (tick k) s2"
    using a2 by (simp add: s3_def)
  from after_webhook_idle [OF i2 a2 q2, of "Response True 200 ''OK''" "tick k", folded s3]
  have f3: "frames s3 = []" and h3: "heap s3 = heap s2"
    by (simp_all add: cleanupOldJobs_fields delivered_fields f2)
  from f2 show "frames (run (es @ take 2 (served k))) = [AwaitWebhook k k (Resolves [ok_result]) True]"
    by (simp only: r2)
  from l2 show "length (heap (run (es @ take 2 (served k)))) = Suc k" by (simp only: r2)
  from q2 show "jobQueue (run (es @ take 2 (served k))) = []" by (simp only: r2)
  from f3 show "frames (run (es @ served k)) = []" by (simp only: r3)
  from l2 h3 show "length (heap (run (es @ served k))) = Suc k" by (simp only: r3)
  have "completedAt_time (heap s3 ! k) = time_value (tick k)"
    using lq by (simp add: h3 h2 h1 completedAt_time_def finished_job_fields)
  then show "completedAt_time (heap (run (es @ served k)) ! k) = time_value (tick k)"
    by (simp only: r3)
  from oq have "\<forall>q < k. heap s3 ! q = heap ?s ! q"
    by (simp add: h3 h2 h1)
  then show "\<forall>q < k. heap (run (es @ served k)) ! q = heap (run es) ! q"
    by (simp only: r3)
qed

lemma many_jobs_Suc: "many_jobs (Suc n) = many_jobs n @ served n"
  by (simp add: many_jobs_def)

lemma many_jobs_idle:
  "frames (run (many_jobs n)) = [] \<and> length (heap (run (many_jobs n))) = n"
proof (induction n)
  case 0
  show ?case by (simp add: many_jobs_def run_def init_def)
next
  case (Suc n)
  then have f: "frames (run (many_jobs n)) = []" and l: "length (heap (run (many_jobs n))) = n"
    by simp_all
  from served_run(4,5) [OF f] show ?case
    by (simp add: many_jobs_Suc l)
qed

lemma many_jobs_store: "length (allJobs (run (many_jobs n))) = min 50 n"
proof -
  let ?s = "run (many_jobs n)"
  have i: "scheduler_inv ?s" by (rule run_inv)
  from many_jobs_idle [of n] have f: "frames ?s = []" and l: "length (heap ?s) = n" by simp_all
  from run_retention [of "many_jobs n"] f idle_state(1,2) [OF i f] l show ?thesis
    by (simp add: inv_retention_def)
qed

lemma many_jobs_times:
  "k < n \<Longrightarrow> completedAt_time (heap (run (many_jobs n)) ! k) = time_value (tick k)"
proof (induction n)
  case 0
  then show ?case by simp
next
  case (Suc n)
  from many_jobs_idle [of n]
  have f: "frames (run (many_jobs n)) = []" and l: "length (heap (run (many_jobs n))) = n"
    by simp_all
  note s = served_run(6,7) [OF f, unfolded l, folded many_jobs_Suc]
  show ?case
  proof (cases "k = n")
    case True
    with s(1) show ?thesis by simp
  next
    case False
    with Suc.prems have "k < n" by simp
    with s(2) Suc.IH show ?thesis by simp
  qed
qed

text \<open>After \<open>n\<close> jobs served one after the other the store holds the latest \<open>min 50 n\<close>.\<close>

lemma upper_set:
  assumes "S \<subseteq> {..<n::nat}" "\<forall>d<n. d \<notin> S \<longrightarrow> (\<forall>x\<in>S. d < x)"
  shows "S = {n - card S..<n}"
proof (cases "S = {}")
  case True
  then show ?thesis by simp
next
  case False
  from assms(1) have fin: "finite S" by (rule finite_subset) simp
  let ?a = "Min S"
  have eq: "S = {?a..<n}"
  proof (intro set_eqI iffI)
    fix x assume "x \<in> S"
    with fin assms(1) show "x \<in> {?a..<n}" by auto
  next
    fix x assume x: "x \<in> {?a..<n}"
    show "x \<in> S"
    proof (rule ccontr)
      assume "x \<notin> S"
      with assms(2) x have "\<forall>y\<in>S. x < y" by simp
      with fin False have "x < ?a" by simp
      with x show False by simp
    qed
  qed
  then have "card S = n - ?a" by (metis card_atLeastLessThan)
  moreover from fin False assms(1) have "?a < n" using Min_in by blast
  ultimately have "n - card S = ?a" by simp
  with eq show ?thesis by simp
qed

lemma many_jobs_kept: "snd ` set (allJobs (run (many_jobs n))) = {n - min 50 n..<n}"
proof -
  let ?s = "run (many_jobs n)"
  let ?S = "snd ` set (allJobs ?s)"
  have i: "scheduler_inv ?s" by (rule run_inv)
  then have st: "inv_store ?s" by (simp add: scheduler_inv_def scheduler_inv_weak_def)
  from many_jobs_idle [of n] have f: "frames ?s = []" and l: "length (heap ?s) = n" by simp_all
  note te = idle_state(2) [OF i f]
  have key: "e = (job_id (heap ?s ! snd e), snd e)" if "e \<in> set (allJobs ?s)" for e
    using st that by (auto simp: inv_store_def prod_eq_iff)
  have inj: "inj_on snd (set (allJobs ?s))"
  proof (rule inj_onI)
    fix a b assume "a \<in> set (allJobs ?s)" "b \<in> set (allJobs ?s)" "snd a = snd b"
    then show "a = b" using key [of a] key [of b] by simp
  qed
  from st have "distinct (allJobs ?s)" by (simp add: inv_store_def distinct_map)
  with inj have "distinct (map snd (allJobs ?s))" by (simp add: distinct_map)
  then have "card ?S = length (allJobs ?s)"
    by (metis distinct_card length_map set_map)
  then have card: "card ?S = min 50 n" by (simp add: many_jobs_store)
  from st l have sub: "?S \<subseteq> {..<n}" by (auto simp: inv_store_def)
  have up: "\<forall>d<n. d \<notin> ?S \<longrightarrow> (\<forall>x\<in>?S. d < x)"
  proof (intro allI impI ballI)
    fix d x assume d: "d < n" "d \<notin> ?S" and x: "x \<in> ?S"
    from x obtain e where e: "e \<in> set (allJobs ?s)" "x = snd e" by auto
    from d(2) have gone: "(job_id (heap ?s ! d), d) \<notin> set (allJobs ?s)" by force
    from st e l have xn: "x < n" by (simp add: inv_store_def)
    from run_recent [of "many_jobs n"] d(1) e(1) gone
    have "completedAt_time (heap ?s ! d) \<le> completedAt_time (heap ?s ! snd e)"
      by (simp add: inv_recent_def l te f)
    with d(1) xn e(2) have "d \<le> x" by (simp add: many_jobs_times tick_def)
    moreover from d(2) x have "d \<noteq> x" by auto
    ultimately show "d < x" by simp
  qed
  from upper_set [OF sub up] card show ?thesis by simp
qed

text \<open>
  The last of 51 jobs is finished and its request is in flight: no job is queued or
  processing, every job is finished, and the store holds 51 finished jobs.
\<close>

theorem retention_counterexample:
  "length (heap (run fifty_one_finished)) = 51 \<and>
   length (finished_jobs (run fifty_one_finished)) = 51 \<and>
   jobQueue (run fifty_one_finished) = [] \<and>
   frames (run fifty_one_finished) = [AwaitWebhook 50 50 (Resolves [ok_result]) True] \<and>
   length (terminal_entries (run fifty_one_finished)) = 51 \<and>
   length (allJobs (run fifty_one_finished)) = 51"
proof -
  let ?s = "run fifty_one_finished"
  from many_jobs_idle [of 50]
  have f: "frames (run (many_jobs 50)) = []" and l: "length (heap (run (many_jobs 50))) = 50"
    by simp_all
  note s = served_run(1,2,3) [OF f, unfolded l, folded fifty_one_finished_def]
  have i: "scheduler_inv ?s" by (rule run_inv)
  have w: "AwaitWebhook 50 50 (Resolves [ok_result]) True \<in> set (frames ?s)"
    by (simp add: s(1))
  from awaiting_webhook(9) [OF i w] s(2,3)
  have all: "\<forall>q < length (heap ?s). terminal (status (heap ?s ! q))"
    by (simp add: started_def)
  then have "\<forall>j \<in> set (heap ?s). terminal (status j)"
    by (auto simp: in_set_conv_nth)
  then have fj: "finished_jobs ?s = heap ?s"
    by (simp add: finished_jobs_def)
  from i have "inv_store ?s" by (simp add: scheduler_inv_def scheduler_inv_weak_def)
  with all have "\<forall>e \<in> set (allJobs ?s). terminal (status (heap ?s ! snd e))"
    by (simp add: inv_store_def)
  then have te: "terminal_entries ?s = allJobs ?s"
    by (simp add: terminal_entries_def)
  from run_retention [of fifty_one_finished]
  have "length (terminal_entries ?s) = 51"
    by (simp add: inv_retention_def s(1,2) fj)
  with s fj te show ?thesis by simp
qed

text \<open>
  Claim C8, as amended. \<^verbatim>\<open>cleanupOldJobs\<close>, on a store whose keys are pairwise different
  (as they are in every reached state), never deletes an entry whose job is queued or
  processing, deletes nothing else than entries of the store, leaves the jobs themselves
  alone, and keeps \<open>min 50 n\<close> of the \<open>n\<close> entries with a finished job; every finished entry
  it keeps was completed no earlier than any entry it deletes. It runs in the \<^verbatim>\<open>finally\<close>
  block of every job, that is when the notification of the job has settled: the store
  after that step is the store before it, trimmed, and no other step deletes an entry
  (a callback that rejects with \<^verbatim>\<open>null\<close> or \<^verbatim>\<open>undefined\<close> reaches the \<^verbatim>\<open>finally\<close> block in
  the step of its settling). So in every reached state the store holds all queued and
  processing jobs, and of the finished jobs as many as there are up to 50, one more
  while the last finished job waits for its notification; apart from that one job, every
  finished job of the store was completed no earlier than any job of the run that has
  left the store. When no job is queued or processing and none waits for its
  notification, the store holds exactly \<open>min 50 N\<close> jobs for \<open>N\<close> jobs submitted, all
  finished. After \<open>n\<close> jobs served one after the other, each completed later than the one
  before, the store holds the last \<open>min 50 n\<close> of them.
\<close>

theorem retention_keeps_latest_fifty:
  "(distinct (map fst (allJobs s)) \<longrightarrow>
      (\<forall>e \<in> set (allJobs s). \<not> terminal (status (heap s ! snd e)) \<longrightarrow>
         e \<in> set (allJobs (cleanupOldJobs s))) \<and>
      length (terminal_entries (cleanupOldJobs s)) = min 50 (length (terminal_entries s)) \<and>
      (\<forall>e \<in> set (terminal_entries (cleanupOldJobs s)). \<forall>d \<in> set (allJobs s).
         d \<notin> set (allJobs (cleanupOldJobs s)) \<longrightarrow>
         terminal (status (heap s ! snd d)) \<and>
         completedAt_time (heap s ! snd d) \<le> completedAt_time (heap s ! snd e))) \<and>
   set (allJobs (cleanupOldJobs s)) \<subseteq> set (allJobs s) \<and>
   heap (cleanupOldJobs s) = heap s \<and>
   distinct (map fst (allJobs (run es))) \<and>
   (\<forall>q < length (heap (run es)). \<not> terminal (status (heap (run es) ! q)) \<longrightarrow>
      (job_id (heap (run es) ! q), q) \<in> set (allJobs (run es))) \<and>
   (AwaitWebhook r p outcome inflight \<in> set (frames (run es)) \<longrightarrow>
      allJobs (step (run es) (WebhookSettled r p outcome inflight resp later))
        = allJobs (cleanupOldJobs (run es)) \<and>
      length (terminal_entries (step (run es) (WebhookSettled r p outcome inflight resp later)))
        = min 50 (length (terminal_entries (run es)))) \<and>
   (AwaitProcess r p \<in> set (frames (run es)) \<longrightarrow>
      allJobs (step (run es) (ProcessSettled r p outcome now later)) =
        (if outcome = RejectsNullish then allJobs (cleanupOldJobs (aborted r p now (run es)))
         else allJobs (run es))) \<and>
   set (allJobs (run es)) \<subseteq> set (allJobs (step (run es) (QueueJob opts ta tb tc))) \<and>
   length (terminal_entries (run es)) =
     (if list_ex is_AwaitWebhook (frames (run es))
      then Suc (min 50 (length (finished_jobs (run es)) - 1))
      else min 50 (length (finished_jobs (run es)))) \<and>
   (\<forall>d < length (heap (run es)). \<forall>e \<in> set (terminal_entries (run es)).
      (job_id (heap (run es) ! d), d) \<notin> set (allJobs (run es)) \<and>
      snd e \<notin> set (waiting_jobs (frames (run es))) \<longrightarrow>
      terminal (status (heap (run es) ! d)) \<and>
      completedAt_time (heap (run es) ! d) \<le> completedAt_time (heap (run es) ! snd e)) \<and>
   ((\<forall>q < length (heap (run es)). terminal (status (heap (run es) ! q))) \<and>
    \<not> list_ex is_AwaitWebhook (frames (run es)) \<longrightarrow>
      terminal_entries (run es) = allJobs (run es) \<and>
      length (allJobs (run es)) = min 50 (length (heap (run es))) \<and>
      (50 < length (heap (run es)) \<longrightarrow> length (allJobs (run es)) = 50)) \<and>
   length (allJobs (run (many_jobs n))) = min 50 n \<and>
   snd ` set (allJobs (run (many_jobs n))) = {n - min 50 n..<n}"
proof -
  let ?s = "run es"
  have i: "scheduler_inv ?s" by (rule run_inv)
  then have st: "inv_store ?s" and fr: "inv_frames ?s"
    by (simp_all add: scheduler_inv_def scheduler_inv_weak_def)
  have a: "(\<forall>e \<in> set (allJobs s). \<not> terminal (status (heap s ! snd e)) \<longrightarrow>
         e \<in> set (allJobs (cleanupOldJobs s))) \<and>
      length (terminal_entries (cleanupOldJobs s)) = min 50 (length (terminal_entries s)) \<and>
      (\<forall>e \<in> set (terminal_entries (cleanupOldJobs s)). \<forall>d \<in> set (allJobs s).
         d \<notin> set (allJobs (cleanupOldJobs s)) \<longrightarrow>
         terminal (status (heap s ! snd d)) \<and>
         completedAt_time (heap s ! snd d) \<le> completedAt_time (heap s ! snd e))"
    if d: "distinct (map fst (allJobs s))"
  proof -
    have keep: "e \<in> set (allJobs (cleanupOldJobs s))"
      if "e \<in> set (allJobs s)" "\<not> terminal (status (heap s ! snd e))" for e
    proof -
      have "e \<notin> set (drop 50 (completed_entries s))"
        using that(2) in_set_dropD [of e 50 "completed_entries s"]
        by (auto simp: completed_entries_set)
      with that(1) show ?thesis
        by (simp add: cleanupOldJobs_allJobs dropped_key [OF d])
    qed
    from keep retention_count [OF d] retention_recent [OF d] show ?thesis
      by blast
  qed
  have b: "set (allJobs (cleanupOldJobs s)) \<subseteq> set (allJobs s)"
    by (auto simp: cleanupOldJobs_allJobs)
  have c: "heap (cleanupOldJobs s) = heap s"
    by (simp add: cleanupOldJobs_fields)
  from st have d: "distinct (map fst (allJobs ?s))"
    and e: "\<forall>q < length (heap ?s). \<not> terminal (status (heap ?s ! q)) \<longrightarrow>
      (job_id (heap ?s ! q), q) \<in> set (allJobs ?s)"
    by (simp_all add: inv_store_def)
  have f: "allJobs (step ?s (WebhookSettled r p outcome inflight resp later))
        = allJobs (cleanupOldJobs ?s) \<and>
      length (terminal_entries (step ?s (WebhookSettled r p outcome inflight resp later)))
        = min 50 (length (terminal_entries ?s))"
    if w: "AwaitWebhook r p outcome inflight \<in> set (frames ?s)"
  proof -
    let ?d = "delivered r p outcome inflight resp ?s"
    have wk: "scheduler_inv_weak (cleanupOldJobs ?d)"
      using i w by (simp add: cleanupOldJobs_inv_weak delivered_inv_weak)
    from d have dk: "distinct (map fst (allJobs ?d))" by (simp add: delivered_fields)
    have te: "terminal_entries ?d = terminal_entries ?s"
      by (simp add: terminal_entries_def delivered_fields)
    have "allJobs (cleanupOldJobs ?d) = allJobs (cleanupOldJobs ?s)"
      by (rule cleanupOldJobs_cong) (simp_all add: delivered_fields)
    with w show ?thesis
      by (simp add: after_webhook_eq terminal_entries_processNextJob(1) [OF wk]
          retention_count [OF dk] te allJobs_processNextJob)
  qed
  have g: "allJobs (step ?s (ProcessSettled r p outcome now later)) =
        (if outcome = RejectsNullish then allJobs (cleanupOldJobs (aborted r p now ?s))
         else allJobs ?s)"
    if "AwaitProcess r p \<in> set (frames ?s)"
    using that by (simp add: after_process_nullish allJobs_processNextJob after_process_fields)
  have h: "set (allJobs ?s) \<subseteq> set (allJobs (step ?s (QueueJob opts ta tb tc)))"
  proof -
    from i have "inv_alloc ?s" by (simp add: scheduler_inv_def scheduler_inv_weak_def)
    from fresh_id [OF this st, of ta] show ?thesis
      by (auto simp: queueJob_eq allJobs_processNextJob enqueued_fields update_fresh)
  qed
  have k: "length (terminal_entries ?s) =
     (if list_ex is_AwaitWebhook (frames ?s)
      then Suc (min 50 (length (finished_jobs ?s) - 1))
      else min 50 (length (finished_jobs ?s)))"
    using run_retention [of es] by (simp only: inv_retention_def)
  have l: "\<forall>d < length (heap ?s). \<forall>e \<in> set (terminal_entries ?s).
      (job_id (heap ?s ! d), d) \<notin> set (allJobs ?s) \<and> snd e \<notin> set (waiting_jobs (frames ?s)) \<longrightarrow>
      terminal (status (heap ?s ! d)) \<and>
      completedAt_time (heap ?s ! d) \<le> completedAt_time (heap ?s ! snd e)"
    using run_recent [of es] e unfolding inv_recent_def by blast
  have m: "terminal_entries ?s = allJobs ?s \<and>
      length (allJobs ?s) = min 50 (length (heap ?s)) \<and>
      (50 < length (heap ?s) \<longrightarrow> length (allJobs ?s) = 50)"
    if n: "(\<forall>q < length (heap ?s). terminal (status (heap ?s ! q))) \<and>
      \<not> list_ex is_AwaitWebhook (frames ?s)"
  proof -
    have "frames ?s = []"
    proof (cases "frames ?s")
      case Nil
      then show ?thesis .
    next
      case (Cons x rest)
      then have x: "x \<in> set (frames ?s)" by simp
      show ?thesis
      proof (cases x)
        case (AwaitProcess r' p')
        with x awaiting_process(3,5) [OF i, of r' p'] n show ?thesis
          by (auto simp: terminal_def)
      next
        case (AwaitWebhook r' p' o' fl')
        with Cons n show ?thesis by simp
      qed
    qed
    with k idle_state(1,2) [OF i this] show ?thesis by simp
  qed
  from a have a': "distinct (map fst (allJobs s)) \<longrightarrow>
      (\<forall>e \<in> set (allJobs s). \<not> terminal (status (heap s ! snd e)) \<longrightarrow>
         e \<in> set (allJobs (cleanupOldJobs s))) \<and>
      length (terminal_entries (cleanupOldJobs s)) = min 50 (length (terminal_entries s)) \<and>
      (\<forall>e \<in> set (terminal_entries (cleanupOldJobs s)). \<forall>d \<in> set (allJobs s).
         d \<notin> set (allJobs (cleanupOldJobs s)) \<longrightarrow>
         terminal (status (heap s ! snd d)) \<and>
         completedAt_time (heap s ! snd d) \<le> completedAt_time (heap s ! snd e))" ..
  from f have f': "AwaitWebhook r p outcome inflight \<in> set (frames ?s) \<longrightarrow>
      allJobs (step ?s (WebhookSettled r p outcome inflight resp later))
        = allJobs (cleanupOldJobs ?s) \<and>
      length (terminal_entries (step ?s (WebhookSettled r p outcome inflight resp later)))
        = min 50 (length (terminal_entries ?s))" ..
  from g have g': "AwaitProcess r p \<in> set (frames ?s) \<longrightarrow>
      allJobs (step ?s (ProcessSettled r p outcome now later)) =
        (if outcome = RejectsNullish then allJobs (cleanupOldJobs (aborted r p now ?s))
         else allJobs ?s)" ..
  from m have m': "(\<forall>q < length (heap ?s). terminal (status (heap ?s ! q))) \<and>
      \<not> list_ex is_AwaitWebhook (frames ?s) \<longrightarrow>
      terminal_entries ?s = allJobs ?s \<and>
      length (allJobs ?s) = min 50 (length (heap ?s)) \<and>
      (50 < length (heap ?s) \<longrightarrow> length (allJobs ?s) = 50)" ..
  note o = many_jobs_store [of n] and o' = many_jobs_kept [of n]
  show ?thesis
    by (intro conjI) (fact a' b c d e f' g' h k l m' o o')+
qed

text \<open>
  Fifty-one jobs are served one after the other: in the end no job is queued or
  processing and no notification is unsettled, and the store holds fifty jobs, all but
  the first.
\<close>

theorem retention_keeps_latest_fifty_witness:
  "length (heap (run (many_jobs 51))) = 51 \<and>
   length (finished_jobs (run (many_jobs 51))) = 51 \<and>
   frames (run (many_jobs 51)) = [] \<and>
   length (allJobs (run (many_jobs 51))) = 50 \<and>
   snd ` set (allJobs (run (many_jobs 51))) = {1..<51}"
proof -
  let ?s = "run (many_jobs 51)"
  have i: "scheduler_inv ?s" by (rule run_inv)
  from many_jobs_idle [of 51] have f: "frames ?s = []" and l: "length (heap ?s) = 51"
    by simp_all
  note t = idle_state(1,3) [OF i f]
  from f have n: "\<not> list_ex is_AwaitWebhook (frames ?s)" by simp
  from retention_keeps_latest_fifty [where es = "many_jobs 51"]
  have "(\<forall>q < length (heap ?s). terminal (status (heap ?s ! q))) \<and>
      \<not> list_ex is_AwaitWebhook (frames ?s) \<longrightarrow>
      terminal_entries ?s = allJobs ?s \<and>
      length (allJobs ?s) = min 50 (length (heap ?s)) \<and>
      (50 < length (heap ?s) \<longrightarrow> length (allJobs ?s) = 50)"
    by blast
  with t(2) n l have "length (allJobs ?s) = 50" by simp
  moreover from retention_keeps_latest_fifty [where n = 51]
  have "snd ` set (allJobs ?s) = {51 - min 50 51..<51}"
    by blast
  ultimately show ?thesis using f l t(1) by simp
qed

section \<open>The concurrency limiter\<close>

lemma unit_result_readable:
  assumes "readable recordings processFunc" "i < length recordings"
  shows "unit_result (recordings ! i) (processFunc (recordings ! i) i (length recordings)) =
    Inr (expected_results recordings processFunc ! i)"
proof -
  from assms have "processFunc (recordings ! i) i (length recordings) \<noteq> RejectsNullish"
    by (simp add: readable_def list_all_iff)
  with assms(2) show ?thesis
    by (simp add: unit_result_def expected_results_def expected_result_def split: settle.splits)
qed

lemma limiter_start:
  "fold (limit_call k) [0..<n] \<lparr>waiting = [], active = [], settled = [], rejected = []\<rparr> =
     \<lparr>waiting = [min k n..<n], active = [0..<min k n], settled = replicate n None, rejected = []\<rparr>"
proof (induction n)
  case 0
  show ?case by simp
next
  case (Suc n)
  show ?case
  proof (cases "n < k")
    case True
    then have "min k n = n" "min k (Suc n) = Suc n" by simp_all
    with Suc True show ?thesis
      by (simp add: limit_call_def replicate_append_same)
  next
    case False
    then have "min k n = k" "min k (Suc n) = k" "k \<le> n" by simp_all
    with Suc False show ?thesis
      by (simp add: limit_call_def replicate_append_same)
  qed
qed

lemma unit_settles_ok:
  assumes "readable recordings processFunc" "settled_ok recordings processFunc l"
  shows "settled_ok recordings processFunc (unit_settles recordings processFunc i l)"
proof (cases "i \<in> set (active l) \<and> i < length recordings")
  case False
  with assms show ?thesis by (auto simp: unit_settles_def)
next
  case True
  then have "settled (unit_settles recordings processFunc i l) =
      (settled l)[i := Some (expected_results recordings processFunc ! i)]"
    and "rejected (unit_settles recordings processFunc i l) = rejected l"
    by (simp_all add: unit_settles_def Let_def unit_result_readable [OF assms(1)] split: list.splits)
  moreover from True assms have "i < length (settled l)"
    by (simp add: settled_ok_def)
  ultimately show ?thesis
    using assms(2) by (auto simp: settled_ok_def nth_list_update)
qed

lemma fold_settles_ok:
  "readable recordings processFunc \<Longrightarrow> settled_ok recordings processFunc l \<Longrightarrow>
   settled_ok recordings processFunc (fold (unit_settles recordings processFunc) order l)"
  by (induction order arbitrary: l) (simp_all add: unit_settles_ok)

lemma limiter_run_ok:
  "readable recordings processFunc \<Longrightarrow>
   settled_ok recordings processFunc (limiter_run recordings processFunc k order)"
  unfolding limiter_run_def
  by (rule fold_settles_ok) (simp_all add: limiter_start settled_ok_def)

lemma Promise_all_ok:
  assumes "settled_ok recordings processFunc l" "Promise_all (settled l) = Some v"
  shows "v = expected_results recordings processFunc"
proof -
  from assms(2) have all: "\<forall>x \<in> set (settled l). x \<noteq> None" and v: "v = map the (settled l)"
    by (simp_all add: Promise_all_def list_all_iff split: if_splits)
  from assms(1) have len: "length (settled l) = length recordings" by (simp add: settled_ok_def)
  show ?thesis
  proof (rule nth_equalityI)
    show "length v = length (expected_results recordings processFunc)"
      by (simp add: v len expected_results_def)
  next
    fix i assume "i < length v"
    then have i: "i < length recordings" by (simp add: v len)
    with all len have "settled l ! i \<noteq> None" by simp
    with assms(1) i have "settled l ! i = Some (expected_results recordings processFunc ! i)"
      by (auto simp: settled_ok_def)
    with i len show "v ! i = expected_results recordings processFunc ! i"
      by (simp add: v)
  qed
qed

text \<open>At most \<open>k\<close> units are in flight.\<close>

lemma unit_settles_active:
  assumes "length (active l) \<le> k"
  shows "length (active (unit_settles recordings processFunc i l)) \<le> k"
proof (cases "i \<in> set (active l) \<and> i < length recordings")
  case False
  with assms show ?thesis by (auto simp: unit_settles_def)
next
  case True
  then have "length (remove1 i (active l)) = length (active l) - 1" "0 < length (active l)"
    by (auto simp: length_remove1 intro: length_pos_if_in_set)
  with True assms show ?thesis
    by (auto simp: unit_settles_def Let_def split: list.splits sum.splits)
qed

lemma limiter_run_active: "length (active (limiter_run recordings processFunc k order)) \<le> k"
proof -
  have "length (active l) \<le> k \<Longrightarrow>
      length (active (fold (unit_settles recordings processFunc) order l)) \<le> k" for l
    by (induction order arbitrary: l) (simp_all add: unit_settles_active)
  then show ?thesis
    by (simp add: limiter_run_def limiter_start)
qed

text \<open>When the units settle in the order of the input, every one is in flight at its turn.\<close>

lemma unit_settles_step:
  assumes "readable recordings processFunc" "m < a" "a \<le> length recordings"
  shows "unit_settles recordings processFunc m
      \<lparr>waiting = [a..<length recordings], active = [m..<a], settled = S, rejected = []\<rparr> =
    \<lparr>waiting = [Suc a..<length recordings],
     active = [Suc m..<(if a < length recordings then Suc a else a)],
     settled = S[m := Some (expected_results recordings processFunc ! m)], rejected = []\<rparr>"
proof -
  from assms have m: "m < length recordings" by simp
  then have ex: "unit_result (recordings ! m) (processFunc (recordings ! m) m (length recordings))
      = Inr (expected_results recordings processFunc ! m)"
    by (rule unit_result_readable [OF assms(1)])
  have rm: "remove1 m [m..<a] = [Suc m..<a]"
    using assms(2) by (simp add: upt_conv_Cons)
  show ?thesis
  proof (cases "a < length recordings")
    case True
    then have w: "[a..<length recordings] = a # [Suc a..<length recordings]"
      by (simp add: upt_conv_Cons)
    from assms(2) have "[Suc m..<a] @ [a] = [Suc m..<Suc a]" by simp
    with True m assms(2) show ?thesis
      unfolding unit_settles_def w by (simp add: Let_def rm ex del: upt_Suc)
  next
    case False
    then have w: "[a..<length recordings] = []" by simp
    from False m assms(2) show ?thesis
      unfolding unit_settles_def w by (simp add: Let_def rm ex del: upt_Suc)
  qed
qed

lemma settle_in_order:
  assumes "readable recordings processFunc" "1 \<le> k" "m \<le> length recordings"
  shows "fold (unit_settles recordings processFunc) [0..<m]
      \<lparr>waiting = [min k (length recordings)..<length recordings],
       active = [0..<min k (length recordings)], settled = replicate (length recordings) None,
       rejected = []\<rparr> =
    \<lparr>waiting = [min (m + k) (length recordings)..<length recordings],
     active = [m..<min (m + k) (length recordings)],
     settled = map Some (take m (expected_results recordings processFunc))
       @ replicate (length recordings - m) None, rejected = []\<rparr>"
  using assms(3)
proof (induction m)
  case 0
  show ?case by simp
next
  case (Suc m)
  let ?n = "length recordings"
  define a where "a = min (m + k) ?n"
  define b where "b = min (Suc m + k) ?n"
  from Suc.prems have m: "m < ?n" by simp
  with assms(2) have ma: "m < a" and an: "a \<le> ?n" by (simp_all add: a_def)
  have ab: "(if a < ?n then Suc a else a) = b" "[Suc a..<?n] = [b..<?n]"
    by (auto simp: a_def b_def min_def)
  have lenx: "length (expected_results recordings processFunc) = ?n"
    by (simp add: expected_results_def)
  have st: "(map Some (take m (expected_results recordings processFunc)) @ replicate (?n - m) None)
      [m := Some (expected_results recordings processFunc ! m)] =
      map Some (take (Suc m) (expected_results recordings processFunc)) @ replicate (?n - Suc m) None"
  proof -
    from m have "replicate (?n - m) (None :: task_result option) = None # replicate (?n - Suc m) None"
      by (simp add: Suc_diff_Suc flip: replicate_Suc)
    with m lenx show ?thesis
      by (simp add: list_update_append take_Suc_conv_app_nth)
  qed
  have "fold (unit_settles recordings processFunc) [0..<Suc m]
      \<lparr>waiting = [min k ?n..<?n], active = [0..<min k ?n], settled = replicate ?n None,
       rejected = []\<rparr> =
    unit_settles recordings processFunc m
      \<lparr>waiting = [a..<?n], active = [m..<a],
       settled = map Some (take m (expected_results recordings processFunc)) @ replicate (?n - m) None,
       rejected = []\<rparr>"
    using Suc.IH m by (simp add: a_def)
  also have "\<dots> = \<lparr>waiting = [b..<?n], active = [Suc m..<b],
     settled = map Some (take (Suc m) (expected_results recordings processFunc))
       @ replicate (?n - Suc m) None, rejected = []\<rparr>"
    by (simp only: unit_settles_step [OF assms(1) ma an] ab st)
  finally show ?case by (simp only: b_def)
qed

lemma limiter_run_in_order:
  assumes "readable recordings processFunc" "1 \<le> k"
  shows "Promise_all (settled (limiter_run recordings processFunc k [0..<length recordings])) =
    Some (expected_results recordings processFunc)"
proof -
  have "length (expected_results recordings processFunc) = length recordings"
    by (simp add: expected_results_def)
  then show ?thesis
    by (simp add: limiter_run_def limiter_start settle_in_order [OF assms] Promise_all_def
        list_all_iff comp_def)
qed

text \<open>
  When no unit has to wait for a slot, the batch is complete as soon as every unit has
  settled, in whatever order.
\<close>

lemma settle_any_order:
  assumes "readable recordings processFunc" "waiting l = []" "length (settled l) = length recordings"
    and "\<forall>i < length recordings. i \<in> set (active l) \<or> settled l ! i \<noteq> None"
  shows "waiting (fold (unit_settles recordings processFunc) order l) = [] \<and>
    length (settled (fold (unit_settles recordings processFunc) order l)) = length recordings \<and>
    (\<forall>i < length recordings.
       i \<in> set (active (fold (unit_settles recordings processFunc) order l)) \<or>
       settled (fold (unit_settles recordings processFunc) order l) ! i \<noteq> None) \<and>
    (\<forall>i \<in> set order. i < length recordings \<longrightarrow>
       settled (fold (unit_settles recordings processFunc) order l) ! i \<noteq> None)"
  using assms
proof (induction order arbitrary: l rule: rev_induct)
  case Nil
  then show ?case by simp
next
  case (snoc x order)
  let ?l = "fold (unit_settles recordings processFunc) order l"
  from snoc.IH [OF snoc.prems]
  have w: "waiting ?l = []" and len: "length (settled ?l) = length recordings"
    and cover: "\<forall>i < length recordings. i \<in> set (active ?l) \<or> settled ?l ! i \<noteq> None"
    and seen: "\<forall>i \<in> set order. i < length recordings \<longrightarrow> settled ?l ! i \<noteq> None"
    by simp_all
  show ?case
  proof (cases "x \<in> set (active ?l) \<and> x < length recordings")
    case False
    then have "unit_settles recordings processFunc x ?l = ?l"
      by (auto simp: unit_settles_def)
    with w len cover seen False show ?thesis by auto
  next
    case True
    then have u: "unit_settles recordings processFunc x ?l =
        ?l\<lparr>settled := (settled ?l)[x := Some (expected_results recordings processFunc ! x)],
           active := remove1 x (active ?l)\<rparr>"
      by (simp add: unit_settles_def Let_def w unit_result_readable [OF snoc.prems(1)])
    from True len w cover seen show ?thesis
      by (auto simp: u nth_list_update)
  qed
qed

lemma limiter_run_any_order:
  assumes "readable recordings processFunc"
    and "length recordings \<le> k" "{0..<length recordings} \<subseteq> set order"
  shows "Promise_all (settled (limiter_run recordings processFunc k order)) =
    Some (expected_results recordings processFunc)"
proof -
  let ?start = "\<lparr>waiting = [min k (length recordings)..<length recordings],
     active = [0..<min k (length recordings)],
     settled = replicate (length recordings) (None :: task_result option), rejected = []\<rparr>"
  let ?l = "limiter_run recordings processFunc k order"
  have l: "?l = fold (unit_settles recordings processFunc) order ?start"
    by (simp add: limiter_run_def limiter_start)
  from assms(2) have "waiting ?start = []" "length (settled ?start) = length recordings"
    "\<forall>i < length recordings. i \<in> set (active ?start) \<or> settled ?start ! i \<noteq> None"
    by simp_all
  from settle_any_order [OF assms(1) this, of order]
  have len: "length (settled ?l) = length recordings"
    and seen: "\<forall>i \<in> set order. i < length recordings \<longrightarrow> settled ?l ! i \<noteq> None"
    unfolding l [symmetric] by blast+
  have "\<forall>x \<in> set (settled ?l). x \<noteq> None"
  proof
    fix x assume "x \<in> set (settled ?l)"
    then obtain i where i: "i < length recordings" and x: "x = settled ?l ! i"
      by (auto simp: in_set_conv_nth len)
    from i assms(3) have "i \<in> set order" by auto
    with seen i x show "x \<noteq> None" by simp
  qed
  then obtain v where v: "Promise_all (settled ?l) = Some v"
    by (simp add: Promise_all_def list_all_iff)
  with Promise_all_ok [OF limiter_run_ok [OF assms(1)] v] show ?thesis by simp
qed


lemma limiter_run_rejected:
  "readable recordings processFunc \<Longrightarrow> rejected (limiter_run recordings processFunc k order) = []"
  using limiter_run_ok [of recordings processFunc k order] by (simp add: settled_ok_def)

text \<open>
  The limiter where the claim holds: no call of \<^verbatim>\<open>processFunc\<close> rejects with \<^verbatim>\<open>null\<close> or
  \<^verbatim>\<open>undefined\<close>. For a concurrency \<open>k\<close> of at least one, whatever the order in which the
  units settle: when \<^verbatim>\<open>processRecordingsInJob\<close> returns, it returns one result for each
  recording, in the order of the input, the result of \<^verbatim>\<open>processFunc\<close> where it resolved
  and the object \<^verbatim>\<open>{success: false, sessionId, error: message}\<close> where it rejected or
  threw, so that no unit aborts the batch. It does return when the units settle in the
  order of the input, and, when no unit has to wait (\<open>k\<close> is at least the number of
  recordings), as soon as every unit has settled in any order. Never more than \<open>k\<close> units
  are in flight.
\<close>

lemma limiter_keeps_input_order:
  assumes "readable recordings processFunc" "1 \<le> k"
  shows "(\<forall>v. processRecordingsInJob recordings processFunc (Some k) c order = Some v \<longrightarrow>
         v = Resolves (expected_results recordings processFunc)) \<and>
      processRecordingsInJob recordings processFunc (Some k) c [0..<length recordings] =
        Some (Resolves (expected_results recordings processFunc)) \<and>
      processRecordingsInJob recordings processFunc None k [0..<length recordings] =
        Some (Resolves (expected_results recordings processFunc)) \<and>
      (length recordings \<le> k \<and> {0..<length recordings} \<subseteq> set order \<longrightarrow>
         processRecordingsInJob recordings processFunc (Some k) c order =
           Some (Resolves (expected_results recordings processFunc))) \<and>
      length (active (limiter_run recordings processFunc k order)) \<le> k \<and>
      length (expected_results recordings processFunc) = length recordings"
proof -
  note r = limiter_run_rejected [OF assms(1)]
  from assms(2) have k0: "k \<noteq> 0" "\<not> k < 1" by simp_all
  have one: "v = Resolves (expected_results recordings processFunc)"
    if "processRecordingsInJob recordings processFunc (Some k) c order = Some v" for v
  proof -
    from that k0 obtain w
      where w: "Promise_all (settled (limiter_run recordings processFunc k order)) = Some w"
        and v: "v = Resolves w"
      by (auto simp: processRecordingsInJob_def r)
    from Promise_all_ok [OF limiter_run_ok [OF assms(1)] w] v show ?thesis by simp
  qed
  have two: "processRecordingsInJob recordings processFunc (Some k) c [0..<length recordings] =
      Some (Resolves (expected_results recordings processFunc))"
    "processRecordingsInJob recordings processFunc None k [0..<length recordings] =
      Some (Resolves (expected_results recordings processFunc))"
    using k0 by (simp_all add: processRecordingsInJob_def r limiter_run_in_order [OF assms])
  have three: "processRecordingsInJob recordings processFunc (Some k) c order =
         Some (Resolves (expected_results recordings processFunc))"
    if "length recordings \<le> k \<and> {0..<length recordings} \<subseteq> set order"
    using k0 that by (simp add: processRecordingsInJob_def r limiter_run_any_order [OF assms(1)])
  have b: "length (active (limiter_run recordings processFunc k order)) \<le> k"
    by (rule limiter_run_active)
  have c: "length (expected_results recordings processFunc) = length recordings"
    by (simp add: expected_results_def)
  from one two three b c show ?thesis by blast
qed

text \<open>
  Claim C6 fails for a unit whose \<^verbatim>\<open>processFunc\<close> rejects with \<^verbatim>\<open>null\<close> or \<^verbatim>\<open>undefined\<close>.
  Of three recordings with two in flight, the second rejects with \<^verbatim>\<open>null\<close>: the \<^verbatim>\<open>catch\<close>
  block of its unit throws when it reads \<^verbatim>\<open>error.message\<close>, the promise of the unit is
  rejected, and \<^verbatim>\<open>Promise.all\<close> rejects. \<^verbatim>\<open>processRecordingsInJob\<close> rejects with the
  \<^verbatim>\<open>TypeError\<close> once all units have settled, and already when only that unit has settled:
  no list of results is returned, although the promises of the two other units are
  fulfilled. With an \<^verbatim>\<open>Error\<close> as rejection the batch returns the three results in the
  order of the input.
\<close>

theorem nullish_rejection_aborts_batch:
  "processRecordingsInJob three_recordings (second_fails RejectsNullish) (Some 2) 3 [0, 1, 2] =
     Some (Rejects (Some TypeError_message)) \<and>
   processRecordingsInJob three_recordings (second_fails RejectsNullish) (Some 2) 3 [1] =
     Some (Rejects (Some TypeError_message)) \<and>
   settled (limiter_run three_recordings (second_fails RejectsNullish) 2 [0, 1, 2]) =
     [Some \<lparr>success = True, sessionId = ''a'', task_error = None, extra = []\<rparr>, None,
      Some \<lparr>success = True, sessionId = ''c'', task_error = None, extra = []\<rparr>] \<and>
   processRecordingsInJob three_recordings (second_fails (Rejects (Some ''boom''))) (Some 2) 3 [0, 1, 2] =
     Some (Resolves
       [\<lparr>success = True, sessionId = ''a'', task_error = None, extra = []\<rparr>,
        \<lparr>success = False, sessionId = ''b'', task_error = Some ''boom'', extra = []\<rparr>,
        \<lparr>success = True, sessionId = ''c'', task_error = None, extra = []\<rparr>])"
  by code_simp


end
